theory Spec2Isabelle
  imports Main "HOL-Library.Word" "HOL-Library.Monad_Syntax"
begin

unbundle bit_operations_syntax


section \<open>timer.c: formatting seconds as a clock string\<close>

text \<open>
  C integer division truncates towards zero, and the remainder takes the sign of the
  dividend. \<open>(int) secs\<close> on a \<open>uint64_t\<close> keeps the low 32 bits, read as two's
  complement. A cast binds tighter than \<open>/\<close> and \<open>%\<close>, so the hour field divides the
  truncated value, while the minute and second fields truncate a value already below 3600.
\<close>

definition c_div :: "int \<Rightarrow> int \<Rightarrow> int" where
  "c_div a b = sgn a * sgn b * (\<bar>a\<bar> div \<bar>b\<bar>)"

definition c_mod :: "int \<Rightarrow> int \<Rightarrow> int" where
  "c_mod a b = a - b * c_div a b"

definition int_of_u64 :: "64 word \<Rightarrow> int" where
  "int_of_u64 x = sint (ucast x :: 32 word)"

text \<open>The decimal digits \<open>printf\<close> writes for a non-negative value; \<open>digit_char\<close> is
  only applied to values below ten.\<close>

definition digit_char :: "nat \<Rightarrow> char" where
  "digit_char d = ''0123456789'' ! d"

fun dec_digits :: "nat \<Rightarrow> string" where
  "dec_digits n = (if n < 10 then [digit_char n] else dec_digits (n div 10) @ [digit_char (n mod 10)])"

declare dec_digits.simps [simp del]

text \<open>\<open>printf ("%02d", v)\<close>: a minus sign for a negative value, then the digits, padded
  with zeros on the left to a minimum width of two characters (the sign counts).\<close>

definition fmt_02d :: "int \<Rightarrow> string" where
  "fmt_02d v =
     (if v < 0 then CHR ''-'' # dec_digits (nat (- v))
      else if v < 10 then CHR ''0'' # dec_digits (nat v)
      else dec_digits (nat v))"

definition LEN_BUFF_CLOCK :: nat where
  "LEN_BUFF_CLOCK = 14"

text \<open>\<open>snprintf\<close> into the 14-byte static buffer keeps at most 13 characters.\<close>

definition sec2clock :: "64 word \<Rightarrow> string" where
  "sec2clock secs =
     take (LEN_BUFF_CLOCK - 1)
       (fmt_02d (c_div (int_of_u64 secs) 3600) @ '':'' @
        fmt_02d (c_div (int_of_u64 (secs mod 3600)) 60) @ '':'' @
        fmt_02d (c_mod (int_of_u64 (secs mod 3600)) 60))"

section \<open>connection.c: reading a line of the kernel's connection file\<close>

text \<open>
  \<open>connection_update_\<close> reads each line with one \<open>sscanf\<close> call:
  \<^verbatim>\<open>"%*d: %9[0-9A-Fa-f]:%hX %9[0-9A-Fa-f]:%hX %hhX %*X:%*X %*X:%*X %*X %*d %*d %lu %*512s\n"\<close>
  and accepts the line when six items were assigned, that is when every directive up to
  \<open>%lu\<close> matched. The directives are modelled one by one on the characters of the line.
  White space in the format, and every numeric conversion, first skips white space
  (\<open>isspace\<close> in the C locale); a scanset does not.
\<close>

definition isspace_c :: "char \<Rightarrow> bool" where
  "isspace_c c = (c \<in> set [CHR '' '', CHR 0x09, CHR 0x0A, CHR 0x0B, CHR 0x0C, CHR 0x0D])"

definition is_dec_digit :: "char \<Rightarrow> bool" where
  "is_dec_digit c = (c \<in> set ''0123456789'')"

definition is_hex_digit :: "char \<Rightarrow> bool" where
  "is_hex_digit c = (c \<in> set ''0123456789ABCDEFabcdef'')"

text \<open>The value of a digit: its position among \<open>0..9A..F\<close>, or ten more than its position
  among \<open>a..f\<close>.\<close>

definition digit_val :: "char \<Rightarrow> nat" where
  "digit_val c =
     (if c \<in> set ''abcdef'' then 10 + length (takeWhile (\<lambda>x. x \<noteq> c) ''abcdef'')
      else length (takeWhile (\<lambda>x. x \<noteq> c) ''0123456789ABCDEF''))"

definition digits_val :: "nat \<Rightarrow> string \<Rightarrow> nat" where
  "digits_val base ds = foldl (\<lambda>acc c. acc * base + digit_val c) 0 ds"

definition skip_ws :: "string \<Rightarrow> string" where
  "skip_ws s = dropWhile isspace_c s"

definition scan_sign :: "string \<Rightarrow> bool \<times> string" where
  "scan_sign s =
     (case s of
        [] \<Rightarrow> (False, [])
      | c # r \<Rightarrow> if c = CHR ''-'' then (True, r) else if c = CHR ''+'' then (False, r) else (False, s))"

text \<open>
  Numeric conversions read an optional sign and the longest run of digits, and convert as
  \<open>strtoul\<close> does: modulo \<open>2^64\<close> with the sign applied, \<open>ULONG_MAX\<close> when the digits
  overflow. The item is then stored through the pointer's type (\<open>%hX\<close> keeps 16 bits,
  \<open>%hhX\<close> 8 bits, \<open>%x\<close> 32 bits, \<open>%lu\<close> all 64).
\<close>

definition to_ulong :: "bool \<Rightarrow> nat \<Rightarrow> 64 word" where
  "to_ulong neg v = (if 2 ^ 64 \<le> v then - 1 else if neg then - of_nat v else of_nat v)"

definition scan_dec :: "string \<Rightarrow> (64 word \<times> string) option" where
  "scan_dec s =
     (let (neg, r) = scan_sign (skip_ws s);
          ds = takeWhile is_dec_digit r
      in if ds = [] then None
         else Some (to_ulong neg (digits_val 10 ds), dropWhile is_dec_digit r))"

text \<open>A hexadecimal conversion also accepts a \<open>0x\<close> or \<open>0X\<close> prefix; the \<open>0\<close> of the
  prefix counts as a digit already read.\<close>

definition scan_hex :: "string \<Rightarrow> (64 word \<times> string) option" where
  "scan_hex s =
     (let (neg, r) = scan_sign (skip_ws s) in
      case r of
        c0 # cx # t \<Rightarrow>
          if c0 = CHR ''0'' \<and> (cx = CHR ''x'' \<or> cx = CHR ''X'')
          then Some (to_ulong neg (digits_val 16 (takeWhile is_hex_digit t)), dropWhile is_hex_digit t)
          else if takeWhile is_hex_digit r = [] then None
          else Some (to_ulong neg (digits_val 16 (takeWhile is_hex_digit r)), dropWhile is_hex_digit r)
      | _ \<Rightarrow>
          if takeWhile is_hex_digit r = [] then None
          else Some (to_ulong neg (digits_val 16 (takeWhile is_hex_digit r)), dropWhile is_hex_digit r))"

text \<open>\<open>%9[0-9A-Fa-f]\<close>: at least one and at most nine characters of the set. The
  destination buffers hold ten bytes (``enough for ipv4'').\<close>

definition scan_set9 :: "string \<Rightarrow> (string \<times> string) option" where
  "scan_set9 s =
     (let a = takeWhile is_hex_digit (take 9 s)
      in if a = [] then None else Some (a, drop (length a) s))"

definition match_char :: "char \<Rightarrow> string \<Rightarrow> string option" where
  "match_char c s = (case s of [] \<Rightarrow> None | x # r \<Rightarrow> if x = c then Some r else None)"

text \<open>The six items \<open>sscanf\<close> assigns.\<close>

record conn_line =
  cl_local_addr :: string
  cl_local_port :: "16 word"
  cl_rem_addr :: string
  cl_rem_port :: "16 word"
  cl_state :: "8 word"
  cl_inode :: "64 word"

text \<open>\<open>Some\<close> exactly when \<open>sscanf\<close> returns 6. The white space written in the format
  is skipped by the numeric conversion that follows it, and explicitly before a scanset.\<close>

definition parse_line :: "string \<Rightarrow> conn_line option" where
  "parse_line line =
     do {
       (sl, r1) \<leftarrow> scan_dec line;
       r2 \<leftarrow> match_char CHR '':'' r1;
       (local_addr, r3) \<leftarrow> scan_set9 (skip_ws r2);
       r4 \<leftarrow> match_char CHR '':'' r3;
       (local_port, r5) \<leftarrow> scan_hex r4;
       (rem_addr, r6) \<leftarrow> scan_set9 (skip_ws r5);
       r7 \<leftarrow> match_char CHR '':'' r6;
       (rem_port, r8) \<leftarrow> scan_hex r7;
       (state, r9) \<leftarrow> scan_hex r8;
       (tx_queue, r10) \<leftarrow> scan_hex r9;
       r11 \<leftarrow> match_char CHR '':'' r10;
       (rx_queue, r12) \<leftarrow> scan_hex r11;
       (tr, r13) \<leftarrow> scan_hex r12;
       r14 \<leftarrow> match_char CHR '':'' r13;
       (tm_when, r15) \<leftarrow> scan_hex r14;
       (retrnsmt, r16) \<leftarrow> scan_hex r15;
       (uid, r17) \<leftarrow> scan_dec r16;
       (timeout, r18) \<leftarrow> scan_dec r17;
       (inode, r19) \<leftarrow> scan_dec r18;
       Some \<lparr> cl_local_addr = local_addr, cl_local_port = ucast local_port,
              cl_rem_addr = rem_addr, cl_rem_port = ucast rem_port,
              cl_state = ucast state, cl_inode = inode \<rparr>
     }"

section \<open>connection.c: the connection table\<close>

text \<open>
  Connection records live on the C heap and are shared: the table refers to each record
  from two entries. The model keeps the records in a store from addresses to records, and
  the entries of the table refer to records by address.
\<close>

type_synonym addr = nat

text \<open>
  Modelled from the spec: \<open>struct tuple\<close> and \<open>connection_t\<close> are declared in connection.h,
  which is absent. The fields are those connection.c reads and writes and section 3 of the
  specification lists (local and remote address and port, protocol; inode, state, active
  flag, reference count \<open>use\<close>). The statistics of a connection play no part here.
\<close>

record tuple =
  l3_local_ip :: "32 word"
  l3_remote_ip :: "32 word"
  l4_local_port :: "16 word"
  l4_remote_port :: "16 word"
  l4_protocol :: int

record connection =
  tuple :: tuple
  inode :: "64 word"
  state :: "8 word"
  active :: bool
  use :: int

text \<open>
  A key is a pointer into a record or to a variable of the caller: what it addresses is
  either an inode (\<open>unsigned long\<close>) or a \<open>struct tuple\<close>. The callbacks of the table get
  two such pointers and read the memory behind them.
\<close>

datatype key = Inode_key "64 word" | Tuple_key tuple

text \<open>
  Accesses that are undefined in C are recorded in the state: an access through a pointer
  to a record that was freed, a second \<open>free\<close> of a record, and a call on the table
  before \<open>connection_init\<close>.
\<close>

datatype fault = Use_after_free addr | Double_free addr | Null_table

text \<open>
  The state of connection.c: the table \<open>ht_connections\<close> (\<open>None\<close> is the \<open>NULL\<close>
  pointer, otherwise the entries of the table), the static variable \<open>key_type\<close>, the
  store of allocated records, and the next address \<open>calloc\<close> returns (allocation is
  modelled as always succeeding, with addresses never reused).
\<close>

record conn_state =
  ht_connections :: "(key \<times> addr) list option"
  key_type :: int
  heap :: "addr \<Rightarrow> connection option"
  next_addr :: addr
  faults :: "fault list"

definition KEY_INODE :: int where "KEY_INODE = 1"

definition KEY_TUPLE :: int where "KEY_TUPLE = 2"

text \<open>Constants of \<open>netinet/tcp.h\<close> and \<open>netinet/in.h\<close>.\<close>

definition TCP_TIME_WAIT :: "8 word" where "TCP_TIME_WAIT = 6"

definition TCP_LISTEN :: "8 word" where "TCP_LISTEN = 10"

definition IPPROTO_TCP :: int where "IPPROTO_TCP = 6"

definition IPPROTO_UDP :: int where "IPPROTO_UDP = 17"

text \<open>
  Modelled from the spec: the flags \<open>TCP\<close> and \<open>UDP\<close> of config.h, which is absent
  (``for each requested protocol'', section 4.B). The argument \<open>proto\<close> of
  \<open>connection_update\<close> is the set of flags that are set in it.
\<close>

datatype proto_flag = TCP | UDP

definition PATH_TCP :: string where "PATH_TCP = ''/proc/net/tcp''"

definition PATH_UDP :: string where "PATH_UDP = ''/proc/net/udp''"

text \<open>
  Modelled from the spec: \<open>struct tuple\<close> is declared in connection.h, which is absent. Its
  first eight bytes are taken to be the two addresses, local then remote, in the order
  connection.c and section 3 of the specification name them, 32 bits each as
  \<open>create_new_conn\<close> stores them with \<open>%x\<close>. Read as one \<open>unsigned long\<close> on a
  little-endian machine they give the remote address in the upper and the local address in
  the lower half.
\<close>

definition tuple_head :: "tuple \<Rightarrow> 64 word" where
  "tuple_head t = word_cat (l3_remote_ip t) (l3_local_ip t)"

text \<open>\<open>*(unsigned long *) key\<close>: the first eight bytes behind the pointer, whichever kind of
  key it is.\<close>

definition read_ulong :: "key \<Rightarrow> 64 word" where
  "read_ulong k = (case k of Inode_key i \<Rightarrow> i | Tuple_key t \<Rightarrow> tuple_head t)"

text \<open>
  \<open>memcmp\<close> over \<open>sizeof (struct tuple)\<close> bytes reads past the eight bytes of an inode,
  into what follows the inode in memory (for a key of the table, the rest of the
  connection record). What lies there is fixed by the layout of \<open>connection_t\<close> in
  connection.h, which is absent, and by nothing in the specification: the model leaves this
  part of the comparison unspecified. It is only consulted when the first eight bytes
  agree.
\<close>

definition behind_inode :: "key \<Rightarrow> key \<Rightarrow> bool" where
  "behind_inode key1 key2 = undefined key1 key2"

text \<open>
  \<open>0 == memcmp (key1, key2, sizeof (struct tuple))\<close>: the first eight bytes agree, and so
  do the bytes after them. Of two tuples these are the ports and the protocol (records are
  zeroed by \<open>calloc\<close>, so padding agrees).
\<close>

definition memcmp_tuple :: "key \<Rightarrow> key \<Rightarrow> bool" where
  "memcmp_tuple key1 key2 =
     (read_ulong key1 = read_ulong key2 \<and>
      (case (key1, key2) of
         (Tuple_key s, Tuple_key t) \<Rightarrow>
           l4_local_port s = l4_local_port t \<and> l4_remote_port s = l4_remote_port t \<and>
           l4_protocol s = l4_protocol t
       | _ \<Rightarrow> behind_inode key1 key2))"

text \<open>
  The comparison callback reads the static variable \<open>key_type\<close>; the model passes its value
  as the first argument. The callback compares the memory the two pointers address as
  \<open>key_type\<close> says, whichever kind of key each of them is: the one table holds keys of both
  kinds, so a lookup by inode is also compared with the tuple keys it meets, and a lookup
  by tuple with the inode keys. For any other value of \<open>key_type\<close> than the two defined
  ones the callback returns 0.
\<close>

definition ht_cb_compare :: "int \<Rightarrow> key \<Rightarrow> key \<Rightarrow> bool" where
  "ht_cb_compare kt key1 key2 =
     (if kt = KEY_INODE then read_ulong key1 = read_ulong key2
      else if kt = KEY_TUPLE then memcmp_tuple key1 key2
      else False)"

text \<open>
  Modelled from the spec: hashtable.c is absent. Section 4.A of the specification describes
  a keyed map with \<open>set\<close>, \<open>get\<close>, \<open>remove\<close>, \<open>foreach\<close> and \<open>destroy\<close>, whose hash
  function and equality predicate are supplied at construction, with collisions resolved by
  chaining. The hash only selects a chain, so the model keeps all entries in one list, in
  the order they were added, and finds a key with the equality predicate alone.
  \<open>hashtable_get\<close> returns the value of the first entry whose key equals the given key.
\<close>

fun hashtable_get :: "(key \<Rightarrow> key \<Rightarrow> bool) \<Rightarrow> (key \<times> addr) list \<Rightarrow> key \<Rightarrow> addr option" where
  "hashtable_get cmp [] k = None"
| "hashtable_get cmp ((k', v) # es) k = (if cmp k' k then Some v else hashtable_get cmp es k)"

text \<open>
  Modelled from the spec: \<open>set (key, value)\<close> of the keyed map of section 4.A. A key that
  is present keeps its entry and gets the new value; a new key gets a new entry.
\<close>

fun hashtable_set :: "(key \<Rightarrow> key \<Rightarrow> bool) \<Rightarrow> (key \<times> addr) list \<Rightarrow> key \<Rightarrow> addr \<Rightarrow> (key \<times> addr) list" where
  "hashtable_set cmp [] k v = [(k, v)]"
| "hashtable_set cmp ((k', v') # es) k v =
     (if cmp k' k then (k', v) # es else (k', v') # hashtable_set cmp es k v)"

text \<open>
  Modelled from the spec: \<open>remove (key)\<close> of the keyed map of section 4.A. It unlinks the
  first entry whose key equals the given key and returns the value it held, on which the
  free callback is then invoked (\<open>ht_remove\<close> below).
\<close>

fun hashtable_remove :: "(key \<Rightarrow> key \<Rightarrow> bool) \<Rightarrow> (key \<times> addr) list \<Rightarrow> key \<Rightarrow> addr option \<times> (key \<times> addr) list" where
  "hashtable_remove cmp [] k = (None, [])"
| "hashtable_remove cmp ((k', v') # es) k =
     (if cmp k' k then (Some v', es)
      else (fst (hashtable_remove cmp es k), (k', v') # snd (hashtable_remove cmp es k)))"

text \<open>The entries of the table, none while the pointer is \<open>NULL\<close>.\<close>

definition entries :: "conn_state \<Rightarrow> (key \<times> addr) list" where
  "entries st = (case ht_connections st of None \<Rightarrow> [] | Some es \<Rightarrow> es)"

text \<open>
  Modelled from the spec: \<open>foreach (visitor)\<close> of the keyed map of section 4.A. The
  visitor is called on the value of every entry of the map, in the order of the entries;
  the table of connection.c holds two entries for each record, so a record is visited once
  for each of its entries. An entry that the visitor removed before it was reached is not
  visited.
\<close>

fun hashtable_foreach_from ::
  "(addr \<Rightarrow> conn_state \<Rightarrow> conn_state) \<Rightarrow> (key \<times> addr) list \<Rightarrow> conn_state \<Rightarrow> conn_state" where
  "hashtable_foreach_from visit [] st = st"
| "hashtable_foreach_from visit (e # rest) st =
     hashtable_foreach_from visit rest (if e \<in> set (entries st) then visit (snd e) st else st)"

definition hashtable_foreach :: "(addr \<Rightarrow> conn_state \<Rightarrow> conn_state) \<Rightarrow> conn_state \<Rightarrow> conn_state" where
  "hashtable_foreach visit st =
     (case ht_connections st of
        None \<Rightarrow> st\<lparr>faults := faults st @ [Null_table]\<rparr>
      | Some es \<Rightarrow> hashtable_foreach_from visit es st)"

text \<open>\<open>free\<close> of a record.\<close>

definition c_free :: "addr \<Rightarrow> conn_state \<Rightarrow> conn_state" where
  "c_free a st =
     (case heap st a of
        None \<Rightarrow> st\<lparr>faults := faults st @ [Double_free a]\<rparr>
      | Some c \<Rightarrow> st\<lparr>heap := (heap st)(a := None)\<rparr>)"

text \<open>The free callback of the table: it drops one reference and frees the record when
  none is left.\<close>

definition ht_cb_free :: "addr \<Rightarrow> conn_state \<Rightarrow> conn_state" where
  "ht_cb_free arg st =
     (case heap st arg of
        None \<Rightarrow> st\<lparr>faults := faults st @ [Use_after_free arg]\<rparr>
      | Some conn \<Rightarrow>
          let st1 = st\<lparr>heap := (heap st)(arg \<mapsto> conn\<lparr>use := use conn - 1\<rparr>)\<rparr>
          in if use conn - 1 = 0 then c_free arg st1 else st1)"

text \<open>
  Modelled from the spec: the calls \<open>hashtable_get\<close>, \<open>hashtable_set\<close> and
  \<open>hashtable_remove\<close> on \<open>ht_connections\<close>, with the callbacks given to
  \<open>hashtable_new\<close>. The comparison sees the value \<open>key_type\<close> has at the time of the call.
  ``The map takes ownership of the value via a caller-supplied free callback invoked when
  remove or destroy drops the last reference'' (section 4.A): \<open>remove\<close> invokes the free
  callback on the value of the entry it drops, \<open>destroy\<close> on the value of every entry.
\<close>

definition ht_get :: "key \<Rightarrow> conn_state \<Rightarrow> addr option" where
  "ht_get k st = hashtable_get (ht_cb_compare (key_type st)) (entries st) k"

definition ht_set :: "key \<Rightarrow> addr \<Rightarrow> conn_state \<Rightarrow> conn_state" where
  "ht_set k v st =
     (case ht_connections st of
        None \<Rightarrow> st\<lparr>faults := faults st @ [Null_table]\<rparr>
      | Some es \<Rightarrow> st\<lparr>ht_connections := Some (hashtable_set (ht_cb_compare (key_type st)) es k v)\<rparr>)"

definition ht_remove :: "key \<Rightarrow> conn_state \<Rightarrow> conn_state" where
  "ht_remove k st =
     (case ht_connections st of
        None \<Rightarrow> st\<lparr>faults := faults st @ [Null_table]\<rparr>
      | Some es \<Rightarrow>
          (case hashtable_remove (ht_cb_compare (key_type st)) es k of
             (None, es') \<Rightarrow> st\<lparr>ht_connections := Some es'\<rparr>
           | (Some v, es') \<Rightarrow> ht_cb_free v (st\<lparr>ht_connections := Some es'\<rparr>)))"

definition hashtable_destroy :: "conn_state \<Rightarrow> conn_state" where
  "hashtable_destroy st = (fold ht_cb_free (map snd (entries st)) st)\<lparr>ht_connections := None\<rparr>"

text \<open>\<open>hashtable_new\<close> is modelled as succeeding with an empty table.\<close>

definition connection_init :: "conn_state \<Rightarrow> bool \<times> conn_state" where
  "connection_init st = (True, st\<lparr>ht_connections := Some []\<rparr>)"

text \<open>
  \<open>calloc\<close> gives a zeroed record; the two addresses are converted with \<open>%x\<close> into the
  32-bit fields. When a conversion fails the record is freed again and \<open>NULL\<close> returned.
\<close>

definition create_new_conn ::
  "64 word \<Rightarrow> string \<Rightarrow> string \<Rightarrow> 16 word \<Rightarrow> 16 word \<Rightarrow> 8 word \<Rightarrow> int \<Rightarrow> conn_state
     \<Rightarrow> addr option \<times> conn_state" where
  "create_new_conn ino local_addr remote_addr local_port rem_port stt protocol st =
     (case scan_hex local_addr of
        None \<Rightarrow> (None, st)
      | Some (lip, r1) \<Rightarrow>
          (case scan_hex remote_addr of
             None \<Rightarrow> (None, st)
           | Some (rip, r2) \<Rightarrow>
               (Some (next_addr st),
                st\<lparr>heap := (heap st)(next_addr st \<mapsto>
                       \<lparr>tuple = \<lparr>l3_local_ip = ucast lip, l3_remote_ip = ucast rip,
                                  l4_local_port = local_port, l4_remote_port = rem_port,
                                  l4_protocol = protocol\<rparr>,
                        inode = ino, state = stt, active = True, use = 0\<rparr>),
                    next_addr := Suc (next_addr st)\<rparr>)))"

text \<open>Dereferencing a pointer to a connection record.\<close>

definition with_conn :: "addr \<Rightarrow> (connection \<Rightarrow> conn_state \<Rightarrow> conn_state) \<Rightarrow> conn_state \<Rightarrow> conn_state" where
  "with_conn a f st =
     (case heap st a of
        None \<Rightarrow> st\<lparr>faults := faults st @ [Use_after_free a]\<rparr>
      | Some c \<Rightarrow> f c st)"

definition connection_insert_by_inode :: "addr \<Rightarrow> conn_state \<Rightarrow> conn_state" where
  "connection_insert_by_inode conn st =
     with_conn conn (\<lambda>c. ht_set (Inode_key (inode c)) conn) (st\<lparr>key_type := KEY_INODE\<rparr>)"

definition connection_insert_by_tuple :: "addr \<Rightarrow> conn_state \<Rightarrow> conn_state" where
  "connection_insert_by_tuple conn st =
     with_conn conn (\<lambda>c. ht_set (Tuple_key (tuple c)) conn) (st\<lparr>key_type := KEY_TUPLE\<rparr>)"

definition connection_insert :: "addr \<Rightarrow> conn_state \<Rightarrow> conn_state" where
  "connection_insert conn st =
     connection_insert_by_tuple conn
       (connection_insert_by_inode conn
          (with_conn conn (\<lambda>c s. s\<lparr>heap := (heap s)(conn \<mapsto> c\<lparr>use := 2\<rparr>)\<rparr>) st))"

definition connection_get_by_inode :: "64 word \<Rightarrow> conn_state \<Rightarrow> addr option \<times> conn_state" where
  "connection_get_by_inode ino st =
     (ht_get (Inode_key ino) (st\<lparr>key_type := KEY_INODE\<rparr>), st\<lparr>key_type := KEY_INODE\<rparr>)"

definition connection_get_by_tuple :: "tuple \<Rightarrow> conn_state \<Rightarrow> addr option \<times> conn_state" where
  "connection_get_by_tuple t st =
     (ht_get (Tuple_key t) (st\<lparr>key_type := KEY_TUPLE\<rparr>), st\<lparr>key_type := KEY_TUPLE\<rparr>)"

text \<open>
  The body of the \<open>while\<close> loop of \<open>connection_update_\<close> for one line: \<open>False\<close> is the
  jump to \<open>EXIT\<close> with \<open>ret = 0\<close>, \<open>True\<close> the next iteration.
\<close>

definition process_line :: "int \<Rightarrow> string \<Rightarrow> conn_state \<Rightarrow> bool \<times> conn_state" where
  "process_line protocol line st =
     (case parse_line line of
        None \<Rightarrow> (False, st)
      | Some p \<Rightarrow>
          if cl_state p = TCP_TIME_WAIT \<or> cl_state p = TCP_LISTEN then (True, st)
          else
            (case connection_get_by_inode (cl_inode p) st of
               (Some conn, st1) \<Rightarrow>
                 (True, with_conn conn (\<lambda>c s. s\<lparr>heap := (heap s)(conn \<mapsto> c\<lparr>active := True\<rparr>)\<rparr>) st1)
             | (None, st1) \<Rightarrow>
                 (case create_new_conn (cl_inode p) (cl_local_addr p) (cl_rem_addr p)
                         (cl_local_port p) (cl_rem_port p) (cl_state p) protocol st1 of
                    (None, st2) \<Rightarrow> (False, st2)
                  | (Some conn, st2) \<Rightarrow> (True, connection_insert conn st2))))"

fun read_lines :: "int \<Rightarrow> string list \<Rightarrow> conn_state \<Rightarrow> bool \<times> conn_state" where
  "read_lines protocol [] st = (True, st)"
| "read_lines protocol (line # rest) st =
     (case process_line protocol line st of
        (False, st') \<Rightarrow> (False, st')
      | (True, st') \<Rightarrow> read_lines protocol rest st')"

text \<open>
  \<open>connection_update_\<close> of connection.c (a name cannot end in an underscore here). The
  file system is a map from paths to the lines of a file; \<open>None\<close> is a file that cannot be
  opened. The first line is the header.
\<close>

definition connection_update_' ::
  "(string \<Rightarrow> string list option) \<Rightarrow> string \<Rightarrow> int \<Rightarrow> conn_state \<Rightarrow> bool \<times> conn_state" where
  "connection_update_' fs path_file protocol st =
     (case fs path_file of
        None \<Rightarrow> (False, st)
      | Some [] \<Rightarrow> (False, st)
      | Some (header # rest) \<Rightarrow> read_lines protocol rest st)"

definition connection_remove_by_inode :: "addr \<Rightarrow> conn_state \<Rightarrow> conn_state" where
  "connection_remove_by_inode conn st =
     with_conn conn (\<lambda>c. ht_remove (Inode_key (inode c))) (st\<lparr>key_type := KEY_INODE\<rparr>)"

definition connection_remove_by_tuple :: "addr \<Rightarrow> conn_state \<Rightarrow> conn_state" where
  "connection_remove_by_tuple conn st =
     with_conn conn (\<lambda>c. ht_remove (Tuple_key (tuple c))) (st\<lparr>key_type := KEY_TUPLE\<rparr>)"

definition connection_remove :: "addr \<Rightarrow> conn_state \<Rightarrow> conn_state" where
  "connection_remove conn st =
     c_free conn (connection_remove_by_tuple conn (connection_remove_by_inode conn st))"

text \<open>The visitor of the aging pass.\<close>

definition remove_dead_conn :: "addr \<Rightarrow> conn_state \<Rightarrow> conn_state" where
  "remove_dead_conn val st =
     with_conn val
       (\<lambda>c s.
          if \<not> active c then
            (let s1 = s\<lparr>heap := (heap s)(val \<mapsto> c\<lparr>use := use c - 1\<rparr>)\<rparr>
             in if use c - 1 = 0 then connection_remove val s1 else s1)
          else s\<lparr>heap := (heap s)(val \<mapsto> c\<lparr>active := False\<rparr>)\<rparr>)
       st"

definition connection_update ::
  "(string \<Rightarrow> string list option) \<Rightarrow> proto_flag set \<Rightarrow> conn_state \<Rightarrow> bool \<times> conn_state" where
  "connection_update fs proto st =
     (case (if TCP \<in> proto then connection_update_' fs PATH_TCP IPPROTO_TCP st else (True, st)) of
        (False, st1) \<Rightarrow> (False, st1)
      | (True, st1) \<Rightarrow>
          (case (if UDP \<in> proto then connection_update_' fs PATH_UDP IPPROTO_UDP st1 else (True, st1)) of
             (False, st2) \<Rightarrow> (False, st2)
           | (True, st2) \<Rightarrow> (True, hashtable_foreach remove_dead_conn st2)))"

text \<open>After \<open>hashtable_destroy\<close> the table is gone; the model sets the pointer to
  \<open>NULL\<close>.\<close>

definition connection_free :: "conn_state \<Rightarrow> conn_state" where
  "connection_free st = (case ht_connections st of None \<Rightarrow> st | Some es \<Rightarrow> hashtable_destroy st)"

text \<open>The state at program start: static variables are zero and nothing is allocated.\<close>

definition start_state :: conn_state where
  "start_state = \<lparr>ht_connections = None, key_type = 0, heap = (\<lambda>a. None), next_addr = 0, faults = []\<rparr>"

text \<open>\<open>printf ("%d", v)\<close>.\<close>

definition fmt_d :: "int \<Rightarrow> string" where
  "fmt_d v = (if v < 0 then CHR ''-'' # dec_digits (nat (- v)) else dec_digits (nat v))"

section \<open>dir.c: matching file descriptors against socket inodes\<close>

text \<open>
  The loop of \<open>main\<close> reads, for every file descriptor of a process and every known inode,
  the target of the descriptor's symbolic link into \<open>temp_buff\<close> and compares it with
  \<open>socket:[inode]\<close>. A link is either readable, with its target, or not (\<open>readlink\<close>
  returns -1 and leaves the buffer as it was).
\<close>

datatype link = Link string | Unreadable

text \<open>
  The buffer \<open>temp_buff\<close> of 1000 bytes, the matches printed so far, and the indices of
  writes that fell outside the buffer.
\<close>

record resolver_state =
  temp_buff :: string
  printed :: "(int \<times> 32 word) list"
  out_of_bounds :: "int list"

definition TEMP_BUFF_SIZE :: nat where
  "TEMP_BUFF_SIZE = 1000"

definition readlink :: "link \<Rightarrow> string \<Rightarrow> nat \<Rightarrow> int \<times> string" where
  "readlink l buf bufsiz =
     (case l of
        Unreadable \<Rightarrow> (- 1, buf)
      | Link target \<Rightarrow>
          (int (min (length target) bufsiz),
           take (min (length target) bufsiz) target @ drop (min (length target) bufsiz) buf))"

definition store_temp_buff :: "int \<Rightarrow> char \<Rightarrow> resolver_state \<Rightarrow> resolver_state" where
  "store_temp_buff i c st =
     (if 0 \<le> i \<and> i < int TEMP_BUFF_SIZE then st\<lparr>temp_buff := (temp_buff st)[nat i := c]\<rparr>
      else st\<lparr>out_of_bounds := out_of_bounds st @ [i]\<rparr>)"

text \<open>The string a buffer holds: its bytes up to the first NUL.\<close>

definition c_str :: "string \<Rightarrow> string" where
  "c_str buf = takeWhile (\<lambda>c. c \<noteq> CHR 0x00) buf"

text \<open>
  \<open>strncmp (s1, s2, n) = 0\<close>. The length is a \<open>ssize_t\<close> converted to \<open>size_t\<close>: a
  negative one becomes larger than any object, and the whole strings are compared.
\<close>

definition strncmp_eq :: "string \<Rightarrow> string \<Rightarrow> int \<Rightarrow> bool" where
  "strncmp_eq s1 s2 n =
     (if n < 0 then c_str s1 = c_str s2
      else take (nat n) (c_str s1) = take (nat n) (c_str s2))"

text \<open>\<open>snprintf (socket, 100, "socket:[%d]", inodes[j])\<close>; the inode is an
  \<open>unsigned int\<close> printed with \<open>%d\<close>.\<close>

definition socket_name :: "32 word \<Rightarrow> string" where
  "socket_name ino = ''socket:['' @ fmt_d (sint ino) @ '']''"

text \<open>One iteration of the inner \<open>for\<close> loop.\<close>

definition match_inode :: "int \<Rightarrow> link \<Rightarrow> 32 word \<Rightarrow> resolver_state \<Rightarrow> resolver_state" where
  "match_inode pid l ino st =
     (let socket = socket_name ino;
          (len_link, buf) = readlink l (temp_buff st) 99;
          st1 = store_temp_buff len_link (CHR 0x00) (st\<lparr>temp_buff := buf\<rparr>)
      in if strncmp_eq socket (temp_buff st1) len_link
         then st1\<lparr>printed := printed st1 @ [(pid, ino)]\<rparr>
         else st1)"

fun match_inodes :: "int \<Rightarrow> link \<Rightarrow> 32 word list \<Rightarrow> resolver_state \<Rightarrow> resolver_state" where
  "match_inodes pid l [] st = st"
| "match_inodes pid l (ino # inodes) st = match_inodes pid l inodes (match_inode pid l ino st)"

fun match_fds :: "int \<Rightarrow> link list \<Rightarrow> 32 word list \<Rightarrow> resolver_state \<Rightarrow> resolver_state" where
  "match_fds pid [] inodes st = st"
| "match_fds pid (l # fds) inodes st = match_fds pid fds inodes (match_inodes pid l inodes st)"

section \<open>Properties of the connection table\<close>

text \<open>
  Keys of the two kinds are apart when no inode is equal to the first eight bytes of a
  tuple: then the comparison callback never takes a key of one kind for a key of the
  other. \<open>inode_apart i es\<close> says this of the inode \<open>i\<close> and the tuple keys of the entries
  \<open>es\<close>, \<open>tuple_apart t es\<close> of the tuple \<open>t\<close> and the inode keys of \<open>es\<close>, and
  \<open>kinds_apart es\<close> of all keys of \<open>es\<close>.
\<close>

definition inode_apart :: "64 word \<Rightarrow> (key \<times> addr) list \<Rightarrow> bool" where
  "inode_apart i es =
     (\<forall>e \<in> set es. case fst e of Inode_key j \<Rightarrow> True | Tuple_key t \<Rightarrow> tuple_head t \<noteq> i)"

definition tuple_apart :: "tuple \<Rightarrow> (key \<times> addr) list \<Rightarrow> bool" where
  "tuple_apart t es =
     (\<forall>e \<in> set es. case fst e of Inode_key i \<Rightarrow> tuple_head t \<noteq> i | Tuple_key s \<Rightarrow> True)"

definition kinds_apart :: "(key \<times> addr) list \<Rightarrow> bool" where
  "kinds_apart es =
     (\<forall>e \<in> set es. case fst e of Inode_key i \<Rightarrow> inode_apart i es | Tuple_key t \<Rightarrow> True)"

text \<open>
  A table is dual-indexed when its keys are distinct, keys of the two kinds are apart, and
  every entry refers to a live record that the table holds under both of its keys, the
  inode and the tuple. \<open>indexed_with P\<close> also asks \<open>P\<close> of every record.
\<close>

definition entry_ok :: "(addr \<Rightarrow> connection \<Rightarrow> bool) \<Rightarrow> conn_state \<Rightarrow> key \<times> addr \<Rightarrow> bool" where
  "entry_ok P st e =
     (case heap st (snd e) of
        None \<Rightarrow> False
      | Some c \<Rightarrow>
          (fst e = Inode_key (inode c) \<or> fst e = Tuple_key (tuple c)) \<and>
          (Inode_key (inode c), snd e) \<in> set (entries st) \<and>
          (Tuple_key (tuple c), snd e) \<in> set (entries st) \<and>
          snd e < next_addr st \<and> P (snd e) c)"

definition indexed_with :: "(addr \<Rightarrow> connection \<Rightarrow> bool) \<Rightarrow> conn_state \<Rightarrow> bool" where
  "indexed_with P st =
     (ht_connections st \<noteq> None \<and> distinct (map fst (entries st)) \<and> kinds_apart (entries st) \<and>
      (\<forall>e \<in> set (entries st). entry_ok P st e))"

text \<open>Between updates a record is either new (two references, active) or has one
  reference left.\<close>

definition use_ok :: "addr \<Rightarrow> connection \<Rightarrow> bool" where
  "use_ok a c = (use c = 2 \<and> active c \<or> use c = 1)"

definition dual_indexed :: "conn_state \<Rightarrow> bool" where
  "dual_indexed st = indexed_with use_ok st"

text \<open>Fields of a line: runs of hexadecimal or decimal digits, and separators of white
  space.\<close>

definition hex_str :: "string \<Rightarrow> bool" where
  "hex_str s = (s \<noteq> [] \<and> (\<forall>c \<in> set s. is_hex_digit c))"

definition dec_str :: "string \<Rightarrow> bool" where
  "dec_str s = (s \<noteq> [] \<and> (\<forall>c \<in> set s. is_dec_digit c))"

definition ws_str :: "string \<Rightarrow> bool" where
  "ws_str s = (\<forall>c \<in> set s. isspace_c c)"

definition sep_str :: "string \<Rightarrow> bool" where
  "sep_str w = (w \<noteq> [] \<and> ws_str w)"

text \<open>The record \<open>create_new_conn\<close> builds from the items of a line.\<close>

definition addr_value :: "string \<Rightarrow> 32 word" where
  "addr_value s = (case scan_hex s of None \<Rightarrow> 0 | Some (v, r) \<Rightarrow> ucast v)"

definition line_tuple :: "int \<Rightarrow> conn_line \<Rightarrow> tuple" where
  "line_tuple protocol p =
     \<lparr>l3_local_ip = addr_value (cl_local_addr p), l3_remote_ip = addr_value (cl_rem_addr p),
      l4_local_port = cl_local_port p, l4_remote_port = cl_rem_port p, l4_protocol = protocol\<rparr>"

definition line_conn :: "int \<Rightarrow> conn_line \<Rightarrow> connection" where
  "line_conn protocol p =
     \<lparr>tuple = line_tuple protocol p, inode = cl_inode p, state = cl_state p, active = True, use = 2\<rparr>"

text \<open>A line is accepted when its state is neither \<open>TIME_WAIT\<close> nor \<open>LISTEN\<close>.\<close>

definition line_accepted :: "conn_line \<Rightarrow> bool" where
  "line_accepted p = (cl_state p \<noteq> TCP_TIME_WAIT \<and> cl_state p \<noteq> TCP_LISTEN)"

text \<open>
  An accepted line clashes with the table when its inode is equal to the first eight bytes
  of a stored tuple, or when it would be inserted (its inode is not found) and its tuple
  is already found, or the first eight bytes of its tuple are equal to a stored inode or to
  its own inode.
\<close>

definition tuple_clash :: "int \<Rightarrow> string \<Rightarrow> conn_state \<Rightarrow> bool" where
  "tuple_clash protocol line st =
     (case parse_line line of
        None \<Rightarrow> False
      | Some p \<Rightarrow>
          line_accepted p \<and>
          (\<not> inode_apart (cl_inode p) (entries st) \<or>
           fst (connection_get_by_inode (cl_inode p) st) = None \<and>
           (fst (connection_get_by_tuple (line_tuple protocol p) st) \<noteq> None \<or>
            \<not> tuple_apart (line_tuple protocol p) (entries st) \<or>
            tuple_head (line_tuple protocol p) = cl_inode p)))"



text \<open>
  The invariant of the aging pass, for the entries \<open>rest\<close> still to visit and the state
  \<open>st0\<close> before the pass: a record with both entries to visit is unchanged; with one
  entry to visit it was active and is now inactive; with none it had two references
  and now has one.
\<close>

definition aging_inv :: "(key \<times> addr) list \<Rightarrow> conn_state \<Rightarrow> addr \<Rightarrow> connection \<Rightarrow> bool" where
  "aging_inv rest st0 a c =
     (case heap st0 a of
        None \<Rightarrow> False
      | Some c0 \<Rightarrow>
          use_ok a c0 \<and>
          (if (Inode_key (inode c0), a) \<in> set rest \<and> (Tuple_key (tuple c0), a) \<in> set rest
           then c = c0
           else if (Inode_key (inode c0), a) \<in> set rest \<or> (Tuple_key (tuple c0), a) \<in> set rest
           then active c0 \<and> c = c0\<lparr>active := False\<rparr>
           else active c0 \<and> use c0 = 2 \<and> c = c0\<lparr>active := False, use := 1\<rparr>))"

definition aging_state :: "(key \<times> addr) list \<Rightarrow> conn_state \<Rightarrow> conn_state \<Rightarrow> bool" where
  "aging_state rest st0 st =
     (indexed_with (aging_inv rest st0) st \<and> distinct rest \<and>
      set (entries st) \<subseteq> set (entries st0) \<and>
      (\<forall>x \<in> set (entries st0). \<forall>c0. heap st0 (snd x) = Some c0 \<longrightarrow> use c0 = 2 \<longrightarrow> x \<in> set (entries st)) \<and>
      next_addr st = next_addr st0 \<and> faults st = faults st0)"

text \<open>No line clashes with the table at the time it is read.\<close>

fun lines_clash_free :: "int \<Rightarrow> string list \<Rightarrow> conn_state \<Rightarrow> bool" where
  "lines_clash_free protocol [] st = True"
| "lines_clash_free protocol (l # ls) st =
     (\<not> tuple_clash protocol l st \<and>
      (case process_line protocol l st of
         (True, st') \<Rightarrow> lines_clash_free protocol ls st'
       | (False, st') \<Rightarrow> True))"

definition file_clash_free ::
  "(string \<Rightarrow> string list option) \<Rightarrow> string \<Rightarrow> int \<Rightarrow> conn_state \<Rightarrow> bool" where
  "file_clash_free fs path_file protocol st =
     (case fs path_file of
        None \<Rightarrow> True
      | Some [] \<Rightarrow> True
      | Some (header # rest) \<Rightarrow> lines_clash_free protocol rest st)"

text \<open>The reading part of \<open>connection_update\<close>, before the aging pass.\<close>

definition scan_files ::
  "(string \<Rightarrow> string list option) \<Rightarrow> proto_flag set \<Rightarrow> conn_state \<Rightarrow> bool \<times> conn_state" where
  "scan_files fs proto st =
     (case (if TCP \<in> proto then connection_update_' fs PATH_TCP IPPROTO_TCP st else (True, st)) of
        (False, st1) \<Rightarrow> (False, st1)
      | (True, st1) \<Rightarrow>
          (if UDP \<in> proto then connection_update_' fs PATH_UDP IPPROTO_UDP st1 else (True, st1)))"

definition update_clash_free ::
  "(string \<Rightarrow> string list option) \<Rightarrow> proto_flag set \<Rightarrow> conn_state \<Rightarrow> bool" where
  "update_clash_free fs proto st =
     ((TCP \<in> proto \<longrightarrow> file_clash_free fs PATH_TCP IPPROTO_TCP st) \<and>
      (UDP \<in> proto \<longrightarrow>
         (case (if TCP \<in> proto then connection_update_' fs PATH_TCP IPPROTO_TCP st else (True, st)) of
            (False, st1) \<Rightarrow> True
          | (True, st1) \<Rightarrow> file_clash_free fs PATH_UDP IPPROTO_UDP st1)))"

subsection \<open>Sample lines and states\<close>

text \<open>The sample lines follow the comment in \<open>connection_update_\<close>.\<close>

definition tcp_header :: string where
  "tcp_header = ''  sl  local_address rem_address   st tx_queue rx_queue tr tm->when retrnsmt   uid  timeout inode''"

definition line_20911 :: string where
  "line_20911 = ''   0: 3500007F:0035 00000000:0000 01 00000000:00000000 00:00000000 00000000   101        0 20911 1 0000000000000000 100 0 0 10 0''"

definition line_44385 :: string where
  "line_44385 = ''   1: 0100007F:0277 0200007F:1733 01 00000000:00000000 00:00000000 00000000     0        0 44385 1 0000000000000000 100 0 0 10 0''"

definition line_listen :: string where
  "line_listen = ''   2: 0100007F:1733 00000000:0000 0A 00000000:00000000 00:00000000 00000000     0        0 27996 1 0000000000000000 100 0 0 10 0''"

definition line_tcp6 :: string where
  "line_tcp6 = ''   0: 00000000000000000000000001000000:0277 00000000000000000000000000000000:0000 01 00000000:00000000 00:00000000 00000000     0        0 21345 1 0000000000000000 100 0 0 10 0''"

definition line_reused :: string where
  "line_reused = ''   0: 0100007F:1F90 0300007F:C350 01 00000000:00000000 00:00000000 00000000   101        0 20911 1 0000000000000000 100 0 0 10 0''"

definition tcp_file :: "string list \<Rightarrow> string \<Rightarrow> string list option" where
  "tcp_file ls path = (if path = PATH_TCP then Some (tcp_header # ls) else None)"


definition init_state :: conn_state where
  "init_state = snd (connection_init start_state)"

subsection \<open>Snapshots and sequences of operations\<close>

text \<open>The lines of a file after its header; none when the file is missing or empty.\<close>

definition file_lines :: "(string \<Rightarrow> string list option) \<Rightarrow> string \<Rightarrow> string list" where
  "file_lines fs path_file =
     (case fs path_file of None \<Rightarrow> [] | Some [] \<Rightarrow> [] | Some (header # rest) \<Rightarrow> rest)"

text \<open>
  A snapshot lists an inode (a tuple) when one of the files that \<open>connection_update\<close> reads
  for the requested protocols has an accepted line with that inode (that tuple).
\<close>

definition lines_list_inode :: "string list \<Rightarrow> 64 word \<Rightarrow> bool" where
  "lines_list_inode ls i =
     (\<exists>l \<in> set ls. case parse_line l of None \<Rightarrow> False | Some p \<Rightarrow> line_accepted p \<and> cl_inode p = i)"

definition lines_list_tuple :: "int \<Rightarrow> string list \<Rightarrow> tuple \<Rightarrow> bool" where
  "lines_list_tuple protocol ls t =
     (\<exists>l \<in> set ls. case parse_line l of
        None \<Rightarrow> False | Some p \<Rightarrow> line_accepted p \<and> line_tuple protocol p = t)"

definition snapshot_lists_inode ::
  "(string \<Rightarrow> string list option) \<Rightarrow> proto_flag set \<Rightarrow> 64 word \<Rightarrow> bool" where
  "snapshot_lists_inode fs proto i =
     ((TCP \<in> proto \<and> lines_list_inode (file_lines fs PATH_TCP) i) \<or>
      (UDP \<in> proto \<and> lines_list_inode (file_lines fs PATH_UDP) i))"

definition snapshot_lists_tuple ::
  "(string \<Rightarrow> string list option) \<Rightarrow> proto_flag set \<Rightarrow> tuple \<Rightarrow> bool" where
  "snapshot_lists_tuple fs proto t =
     ((TCP \<in> proto \<and> lines_list_tuple IPPROTO_TCP (file_lines fs PATH_TCP) t) \<or>
      (UDP \<in> proto \<and> lines_list_tuple IPPROTO_UDP (file_lines fs PATH_UDP) t))"

text \<open>An entry and its record were already in the state \<open>st\<close>, with the same reference
  count, inode and tuple.\<close>

definition kept_from :: "conn_state \<Rightarrow> key \<times> addr \<Rightarrow> connection \<Rightarrow> bool" where
  "kept_from st x c =
     (x \<in> set (entries st) \<and>
      (case heap st (snd x) of
         None \<Rightarrow> False
       | Some c0 \<Rightarrow> use c0 = use c \<and> inode c0 = inode c \<and> tuple c0 = tuple c))"

text \<open>The table holds, under the inode, a record with two references: one inserted since
  the last aging pass.\<close>

definition has_new :: "conn_state \<Rightarrow> 64 word \<Rightarrow> bool" where
  "has_new st i =
     (case map_of (entries st) (Inode_key i) of
        None \<Rightarrow> False
      | Some a \<Rightarrow> (case heap st a of None \<Rightarrow> False | Some c \<Rightarrow> use c = 2))"

text \<open>
  The two operations a caller applies to the table between program start and
  \<open>connection_free\<close>, and a sequence of them run from a state. The result of an update
  (success or failure) is dropped here: the state is kept either way.
\<close>

datatype table_op =
  Op_init
| Op_update "string \<Rightarrow> string list option" "proto_flag set"

fun run_op :: "table_op \<Rightarrow> conn_state \<Rightarrow> conn_state" where
  "run_op Op_init st = snd (connection_init st)"
| "run_op (Op_update fs proto) st = snd (connection_update fs proto st)"

fun run_ops :: "table_op list \<Rightarrow> conn_state \<Rightarrow> conn_state" where
  "run_ops [] st = st"
| "run_ops (op # ops) st = run_ops ops (run_op op st)"

text \<open>No update of the sequence reads a line that clashes with the table at the time it
  is read.\<close>

fun ops_clash_free :: "table_op list \<Rightarrow> conn_state \<Rightarrow> bool" where
  "ops_clash_free [] st = True"
| "ops_clash_free (Op_init # ops) st = ops_clash_free ops (run_op Op_init st)"
| "ops_clash_free (Op_update fs proto # ops) st =
     (update_clash_free fs proto st \<and> ops_clash_free ops (run_op (Op_update fs proto) st))"

text \<open>Two UDP sockets bound to the same local address and port (as \<open>SO_REUSEPORT\<close>
  allows): two lines of the UDP file with the same tuple and different inodes.\<close>

definition line_udp_31001 :: string where
  "line_udp_31001 = ''  10: 00000000:14E9 00000000:0000 07 00000000:00000000 00:00000000 00000000   101        0 31001 2 0000000000000000 0''"

definition line_udp_31002 :: string where
  "line_udp_31002 = ''  11: 00000000:14E9 00000000:0000 07 00000000:00000000 00:00000000 00000000   101        0 31002 2 0000000000000000 0''"

text \<open>A UDP socket bound to 127.0.0.1: the first eight bytes of its tuple, read as an
  \<open>unsigned long\<close>, are 16777343.\<close>

definition line_udp_555 :: string where
  "line_udp_555 = ''  12: 0100007F:0035 00000000:0000 07 00000000:00000000 00:00000000 00000000   101        0 555 2 0000000000000000 0''"

definition udp_file :: "string list \<Rightarrow> string \<Rightarrow> string list option" where
  "udp_file ls path = (if path = PATH_UDP then Some (tcp_header # ls) else None)"

section \<open>Properties of \<open>sec2clock\<close>\<close>

lemma uint_lt_of_unat_lt: "unat (x :: 64 word) < 2 ^ 31 \<Longrightarrow> uint x < 2 ^ 31"
proof -
  assume "unat x < 2 ^ 31"
  then have "int (unat x) < int (2 ^ 31)" by (simp only: of_nat_less_iff)
  then show ?thesis by simp
qed

lemma int_of_u64_small: "unat x < 2 ^ 31 \<Longrightarrow> int_of_u64 x = int (unat x)"
proof -
  assume a: "unat x < 2 ^ 31"
  have b: "uint x < 2 ^ 31" using a by (rule uint_lt_of_unat_lt)
  then have "uint (ucast x :: 32 word) = uint x"
    using uint_ge_0 [of x] by (simp add: unsigned_ucast_eq take_bit_eq_mod)
  with b show ?thesis
    by (simp add: int_of_u64_def sint_uint signed_take_bit_eq_if_positive take_bit_eq_mod bit_iff_odd)
qed

lemma c_div_nat: "0 < b \<Longrightarrow> c_div (int a) (int b) = int (a div b)"
  by (cases "a = 0") (simp_all add: c_div_def zdiv_int)

lemma c_mod_nat: "0 < b \<Longrightarrow> c_mod (int a) (int b) = int (a mod b)"
proof -
  assume "0 < b"
  then have "c_mod (int a) (int b) = int a - int b * int (a div b)"
    by (simp add: c_mod_def c_div_nat)
  also have "\<dots> = int (a mod b)"
    by (simp add: zmod_int zdiv_int minus_mult_div_eq_mod)
  finally show ?thesis .
qed

lemma length_dec_digits: "0 < k \<Longrightarrow> n < 10 ^ k \<Longrightarrow> length (dec_digits n) \<le> k"
proof (induction k arbitrary: n)
  case 0
  then show ?case by simp
next
  case (Suc k)
  show ?case
  proof (cases "n < 10")
    case True
    then show ?thesis by (simp add: dec_digits.simps)
  next
    case False
    then have k: "0 < k" using Suc.prems by (cases k) auto
    have "n div 10 < 10 ^ k" using Suc.prems by (simp add: less_mult_imp_div_less mult.commute)
    then have "length (dec_digits (n div 10)) \<le> k" using Suc.IH k by blast
    with False show ?thesis by (subst dec_digits.simps) simp
  qed
qed

lemma fmt_02d_two: "m < 100 \<Longrightarrow> fmt_02d (int m) = [digit_char (m div 10), digit_char (m mod 10)]"
proof (cases "m < 10")
  case True
  then show ?thesis by (simp add: fmt_02d_def dec_digits.simps digit_char_def)
next
  case False
  assume "m < 100"
  then have "m div 10 < 10" by simp
  then have "dec_digits m = [digit_char (m div 10), digit_char (m mod 10)]"
    using False by (subst dec_digits.simps) (simp add: dec_digits.simps)
  with False show ?thesis by (simp add: fmt_02d_def)
qed

lemma length_fmt_02d: "n < 10 ^ 6 \<Longrightarrow> length (fmt_02d (int n)) \<le> 6"
proof -
  assume a: "n < 10 ^ 6"
  have "length (dec_digits n) \<le> 6" by (rule length_dec_digits) (use a in simp_all)
  moreover have "n < 10 \<Longrightarrow> length (dec_digits n) = 1" by (simp add: dec_digits.simps)
  ultimately show ?thesis by (auto simp: fmt_02d_def)
qed

text \<open>
  C10. For every \<open>secs\<close> below \<open>2^31\<close>, \<open>sec2clock\<close> returns hours, minutes and seconds
  separated by colons: the hour field is printed with at least two digits, the minute and
  second fields are exactly two digits each, both are below 60, and
  \<open>hours * 3600 + minutes * 60 + seconds = secs\<close>.
\<close>

theorem sec2clock_hms:
  assumes "unat secs < 2 ^ 31"
  shows "sec2clock secs =
           fmt_02d (int (unat secs div 3600)) @ '':'' @
           [digit_char (unat secs mod 3600 div 60 div 10), digit_char (unat secs mod 3600 div 60 mod 10)] @ '':'' @
           [digit_char (unat secs mod 60 div 10), digit_char (unat secs mod 60 mod 10)]
         \<and> unat secs mod 3600 div 60 < 60 \<and> unat secs mod 60 < 60
         \<and> (unat secs div 3600) * 3600 + (unat secs mod 3600 div 60) * 60 + unat secs mod 60 = unat secs"
proof -
  let ?n = "unat secs"
  have h: "c_div (int_of_u64 secs) 3600 = int (?n div 3600)"
    using c_div_nat [of 3600 ?n] assms by (simp add: int_of_u64_small)
  have r: "unat (secs mod 3600) = ?n mod 3600" by (simp add: unat_mod)
  have "?n mod 3600 < 2 ^ 31" by (rule less_trans [of _ 3600]) simp_all
  then have i: "int_of_u64 (secs mod 3600) = int (?n mod 3600)"
    using int_of_u64_small [of "secs mod 3600"] r by simp
  have m: "c_div (int_of_u64 (secs mod 3600)) 60 = int (?n mod 3600 div 60)"
    using c_div_nat [of 60 "?n mod 3600"] i by simp
  have "?n mod 3600 mod 60 = ?n mod 60" by (simp add: mod_mod_cancel)
  then have s: "c_mod (int_of_u64 (secs mod 3600)) 60 = int (?n mod 60)"
    using c_mod_nat [of 60 "?n mod 3600"] i by simp
  have m60: "?n mod 3600 div 60 < 60" by (simp add: less_mult_imp_div_less)
  have hlen: "length (fmt_02d (int (?n div 3600))) \<le> 6"
    by (rule length_fmt_02d) (use assms in simp)
  have str: "sec2clock secs =
           fmt_02d (int (unat secs div 3600)) @ '':'' @
           [digit_char (unat secs mod 3600 div 60 div 10), digit_char (unat secs mod 3600 div 60 mod 10)] @ '':'' @
           [digit_char (unat secs mod 60 div 10), digit_char (unat secs mod 60 mod 10)]"
    using hlen m60 by (simp add: sec2clock_def h m s fmt_02d_two LEN_BUFF_CLOCK_def)
  have "?n mod 3600 div 60 * 60 + ?n mod 3600 mod 60 = ?n mod 3600"
    by (rule div_mult_mod_eq)
  moreover have "?n div 3600 * 3600 + ?n mod 3600 = ?n"
    by (rule div_mult_mod_eq)
  ultimately have "?n div 3600 * 3600 + ?n mod 3600 div 60 * 60 + ?n mod 60 = ?n"
    using \<open>?n mod 3600 mod 60 = ?n mod 60\<close> by linarith
  with str m60 show ?thesis by simp
qed

text \<open>One hour, one minute and one second.\<close>

theorem sec2clock_hms_witness:
  "unat (3661 :: 64 word) < 2 ^ 31 \<and> sec2clock 3661 = ''01:01:01''"
  using sec2clock_hms [of 3661]
  by (simp add: fmt_02d_def dec_digits.simps digit_char_def)

text \<open>
  C9. When \<open>readlink\<close> fails, the loop writes the terminating NUL at index -1 of
  \<open>temp_buff\<close>, outside the buffer, and compares the whole stale contents of the buffer
  with the socket name: if the buffer still holds that name, a match is printed for a
  descriptor that could not be read.
\<close>

theorem readlink_failure_out_of_bounds:
  "out_of_bounds (match_inode pid Unreadable ino st) = out_of_bounds st @ [- 1] \<and>
   printed (match_inode pid Unreadable ino st) =
     (if c_str (socket_name ino) = c_str (temp_buff st) then printed st @ [(pid, ino)] else printed st)"
  by (simp add: match_inode_def readlink_def store_temp_buff_def strncmp_eq_def TEMP_BUFF_SIZE_def)

section \<open>Properties of the line parser and of the connection table\<close>

subsection \<open>Lookups\<close>

lemma tuple_head_eq:
  "(tuple_head s = tuple_head t) = (l3_local_ip s = l3_local_ip t \<and> l3_remote_ip s = l3_remote_ip t)"
proof
  assume e: "tuple_head s = tuple_head t"
  have "l3_local_ip s = l3_local_ip t"
  proof (rule bit_word_eqI)
    fix n assume "n < LENGTH(32)"
    then show "bit (l3_local_ip s) n = bit (l3_local_ip t) n"
      using arg_cong [OF e, of "\<lambda>w. bit w n"] by (simp add: tuple_head_def bit_word_cat_iff)
  qed
  moreover have "l3_remote_ip s = l3_remote_ip t"
  proof (rule bit_word_eqI)
    fix n assume "n < LENGTH(32)"
    then show "bit (l3_remote_ip s) n = bit (l3_remote_ip t) n"
      using arg_cong [OF e, of "\<lambda>w. bit w (n + 32)"] by (simp add: tuple_head_def bit_word_cat_iff)
  qed
  ultimately show "l3_local_ip s = l3_local_ip t \<and> l3_remote_ip s = l3_remote_ip t" by simp
qed (simp add: tuple_head_def)

lemma cmp_inode_inode [simp]: "ht_cb_compare KEY_INODE (Inode_key j) (Inode_key i) = (j = i)"
  by (simp add: ht_cb_compare_def read_ulong_def)

lemma cmp_inode_tuple [simp]: "ht_cb_compare KEY_INODE (Tuple_key t) (Inode_key i) = (tuple_head t = i)"
  by (simp add: ht_cb_compare_def read_ulong_def)

lemma cmp_tuple_tuple [simp]: "ht_cb_compare KEY_TUPLE (Tuple_key s) (Tuple_key t) = (s = t)"
  by (auto simp: ht_cb_compare_def memcmp_tuple_def read_ulong_def tuple_head_eq KEY_INODE_def
      KEY_TUPLE_def)

lemma cmp_tuple_inode: "ht_cb_compare KEY_TUPLE (Inode_key i) (Tuple_key t) \<Longrightarrow> tuple_head t = i"
  by (simp add: ht_cb_compare_def memcmp_tuple_def read_ulong_def KEY_INODE_def KEY_TUPLE_def)

lemma inode_apartD: "inode_apart i es \<Longrightarrow> (Tuple_key t, a) \<in> set es \<Longrightarrow> tuple_head t \<noteq> i"
  unfolding inode_apart_def by (drule bspec [where x = "(Tuple_key t, a)"]) simp_all

lemma tuple_apartD: "tuple_apart t es \<Longrightarrow> (Inode_key i, a) \<in> set es \<Longrightarrow> tuple_head t \<noteq> i"
  unfolding tuple_apart_def by (drule bspec [where x = "(Inode_key i, a)"]) simp_all

lemma cmp_inode:
  assumes "inode_apart i es" "k \<in> fst ` set es"
  shows "ht_cb_compare KEY_INODE k (Inode_key i) = (k = Inode_key i)"
proof (cases k)
  case (Inode_key j)
  then show ?thesis by simp
next
  case (Tuple_key t)
  with assms(2) obtain a where "(Tuple_key t, a) \<in> set es" by auto
  with assms(1) have "tuple_head t \<noteq> i" by (rule inode_apartD)
  with Tuple_key show ?thesis by simp
qed

lemma cmp_tuple:
  assumes "tuple_apart t es" "k \<in> fst ` set es"
  shows "ht_cb_compare KEY_TUPLE k (Tuple_key t) = (k = Tuple_key t)"
proof (cases k)
  case (Inode_key i)
  with assms(2) obtain a where "(Inode_key i, a) \<in> set es" by auto
  with assms(1) have "tuple_head t \<noteq> i" by (rule tuple_apartD)
  then have "\<not> ht_cb_compare KEY_TUPLE (Inode_key i) (Tuple_key t)" using cmp_tuple_inode by blast
  with Inode_key show ?thesis by simp
next
  case (Tuple_key s)
  then show ?thesis by simp
qed

lemma hashtable_get_None:
  "(hashtable_get cmp es k = None) = (\<forall>k' \<in> fst ` set es. \<not> cmp k' k)"
proof (induction es)
  case Nil
  then show ?case by simp
next
  case (Cons e es)
  obtain k' v' where e: "e = (k', v')" by (cases e)
  show ?case using Cons.IH by (simp add: e)
qed


lemma hashtable_get_map_of:
  "(\<And>k'. k' \<in> fst ` set es \<Longrightarrow> cmp k' k = (k' = k)) \<Longrightarrow> hashtable_get cmp es k = map_of es k"
proof (induction es)
  case Nil
  then show ?case by simp
next
  case (Cons e es)
  obtain k' v' where e: "e = (k', v')" by (cases e)
  have c: "cmp k' k = (k' = k)" using Cons.prems [of k'] e by simp
  have "hashtable_get cmp es k = map_of es k" using Cons.prems by (intro Cons.IH) simp
  with c show ?case by (simp add: e)
qed

lemma hashtable_set_append:
  "\<forall>k' \<in> fst ` set es. \<not> cmp k' k \<Longrightarrow> hashtable_set cmp es k v = es @ [(k, v)]"
proof (induction es)
  case Nil
  then show ?case by simp
next
  case (Cons e es)
  obtain k' v' where e: "e = (k', v')" by (cases e)
  from Cons.prems have "\<not> cmp k' k" "\<forall>k' \<in> fst ` set es. \<not> cmp k' k" by (simp_all add: e)
  with Cons.IH show ?case by (simp add: e)
qed

lemma hashtable_set_fresh:
  assumes "\<And>k'. k' \<in> fst ` set es \<Longrightarrow> cmp k' k = (k' = k)" "k \<notin> fst ` set es"
  shows "hashtable_set cmp es k v = es @ [(k, v)]"
proof (rule hashtable_set_append, rule ballI)
  fix k' assume "k' \<in> fst ` set es"
  with assms show "\<not> cmp k' k" by blast
qed

lemma hashtable_remove_filter:
  "(\<And>k'. k' \<in> fst ` set es \<Longrightarrow> cmp k' k = (k' = k)) \<Longrightarrow> distinct (map fst es) \<Longrightarrow>
     hashtable_remove cmp es k = (map_of es k, filter (\<lambda>e. fst e \<noteq> k) es)"
proof (induction es)
  case Nil
  then show ?case by simp
next
  case (Cons e es)
  obtain k' v' where e: "e = (k', v')" by (cases e)
  have c: "cmp k' k = (k' = k)" using Cons.prems(1) [of k'] e by simp
  show ?case
  proof (cases "k' = k")
    case True
    then have "k \<notin> fst ` set es" using Cons.prems(2) e by auto
    then have "filter (\<lambda>e. fst e \<noteq> k) es = es" by (auto simp: filter_id_conv)
    with True e c show ?thesis by simp
  next
    case False
    have "hashtable_remove cmp es k = (map_of es k, filter (\<lambda>e. fst e \<noteq> k) es)"
      using Cons.prems by (intro Cons.IH) simp_all
    with False e c show ?thesis by simp
  qed
qed

lemma entries_key_type [simp]: "entries (st\<lparr>key_type := k\<rparr>) = entries st"
  by (simp add: entries_def)

lemma entries_heap [simp]: "entries (st\<lparr>heap := h\<rparr>) = entries st"
  by (simp add: entries_def)

lemma entries_next_addr [simp]: "entries (st\<lparr>next_addr := n\<rparr>) = entries st"
  by (simp add: entries_def)

lemma entries_ht [simp]: "entries (st\<lparr>ht_connections := Some es\<rparr>) = es"
  by (simp add: entries_def)

lemma ht_get_inode:
  "inode_apart i (entries st) \<Longrightarrow>
     ht_get (Inode_key i) (st\<lparr>key_type := KEY_INODE\<rparr>) = map_of (entries st) (Inode_key i)"
  by (simp add: ht_get_def hashtable_get_map_of cmp_inode)

lemma ht_get_tuple:
  "tuple_apart t (entries st) \<Longrightarrow>
     ht_get (Tuple_key t) (st\<lparr>key_type := KEY_TUPLE\<rparr>) = map_of (entries st) (Tuple_key t)"
  by (simp add: ht_get_def hashtable_get_map_of cmp_tuple)

lemma get_by_inode_eq:
  "inode_apart i (entries st) \<Longrightarrow>
     connection_get_by_inode i st = (map_of (entries st) (Inode_key i), st\<lparr>key_type := KEY_INODE\<rparr>)"
  by (simp add: connection_get_by_inode_def ht_get_inode)

lemma get_by_tuple_eq:
  "tuple_apart t (entries st) \<Longrightarrow>
     connection_get_by_tuple t st = (map_of (entries st) (Tuple_key t), st\<lparr>key_type := KEY_TUPLE\<rparr>)"
  by (simp add: connection_get_by_tuple_def ht_get_tuple)

lemma get_by_inode_None:
  "(fst (connection_get_by_inode i st) = None) =
     (Inode_key i \<notin> fst ` set (entries st) \<and> inode_apart i (entries st))"
proof -
  have "(\<forall>k' \<in> fst ` set (entries st). \<not> ht_cb_compare KEY_INODE k' (Inode_key i)) =
        (Inode_key i \<notin> fst ` set (entries st) \<and> inode_apart i (entries st))"
  proof (intro iffI conjI)
    assume a: "\<forall>k' \<in> fst ` set (entries st). \<not> ht_cb_compare KEY_INODE k' (Inode_key i)"
    show "Inode_key i \<notin> fst ` set (entries st)"
    proof
      assume "Inode_key i \<in> fst ` set (entries st)"
      with a have "\<not> ht_cb_compare KEY_INODE (Inode_key i) (Inode_key i)" by blast
      then show False by simp
    qed
    show "inode_apart i (entries st)"
      unfolding inode_apart_def
    proof
      fix e assume "e \<in> set (entries st)"
      then have "\<not> ht_cb_compare KEY_INODE (fst e) (Inode_key i)" using a by simp
      then show "case fst e of Inode_key j \<Rightarrow> True | Tuple_key t \<Rightarrow> tuple_head t \<noteq> i"
        by (cases "fst e") simp_all
    qed
  next
    assume b: "Inode_key i \<notin> fst ` set (entries st) \<and> inode_apart i (entries st)"
    show "\<forall>k' \<in> fst ` set (entries st). \<not> ht_cb_compare KEY_INODE k' (Inode_key i)"
    proof
      fix k' assume k: "k' \<in> fst ` set (entries st)"
      with b have "ht_cb_compare KEY_INODE k' (Inode_key i) = (k' = Inode_key i)"
        by (intro cmp_inode) simp_all
      with b k show "\<not> ht_cb_compare KEY_INODE k' (Inode_key i)" by metis
    qed
  qed
  then show ?thesis
    by (simp add: connection_get_by_inode_def ht_get_def hashtable_get_None)
qed

lemma entry_ok_key_type [simp]: "entry_ok P (st\<lparr>key_type := k\<rparr>) e = entry_ok P st e"
  by (simp add: entry_ok_def split: option.split)

lemma indexed_with_key_type [simp]: "indexed_with P (st\<lparr>key_type := k\<rparr>) = indexed_with P st"
  by (simp add: indexed_with_def)

lemma indexed_withD:
  assumes "indexed_with P st" "e \<in> set (entries st)"
  obtains c where "heap st (snd e) = Some c"
    and "fst e = Inode_key (inode c) \<or> fst e = Tuple_key (tuple c)"
    and "(Inode_key (inode c), snd e) \<in> set (entries st)"
    and "(Tuple_key (tuple c), snd e) \<in> set (entries st)"
    and "snd e < next_addr st" and "P (snd e) c"
  using assms by (auto simp: indexed_with_def entry_ok_def split: option.splits)

lemma indexed_with_mono:
  "indexed_with P st \<Longrightarrow> (\<And>a c. P a c \<Longrightarrow> Q a c) \<Longrightarrow> indexed_with Q st"
  by (auto simp: indexed_with_def entry_ok_def split: option.splits)

lemma kinds_apart_inode:
  assumes "kinds_apart es" "Inode_key i \<in> fst ` set es"
  shows "inode_apart i es"
proof -
  from assms(2) obtain a where "(Inode_key i, a) \<in> set es" by auto
  with assms(1) show ?thesis
    unfolding kinds_apart_def by (drule_tac bspec [where x = "(Inode_key i, a)"]) simp_all
qed

lemma kinds_apart_tuple:
  assumes "kinds_apart es" "Tuple_key t \<in> fst ` set es"
  shows "tuple_apart t es"
  unfolding tuple_apart_def
proof
  fix e assume e: "e \<in> set es"
  show "case fst e of Inode_key i \<Rightarrow> tuple_head t \<noteq> i | Tuple_key s \<Rightarrow> True"
  proof (cases "fst e")
    case (Inode_key i)
    with e have "Inode_key i \<in> fst ` set es" by (metis image_eqI)
    with assms(1) have ia: "inode_apart i es" by (rule kinds_apart_inode)
    from assms(2) obtain a where "(Tuple_key t, a) \<in> set es" by auto
    with ia have "tuple_head t \<noteq> i" by (rule inode_apartD)
    with Inode_key show ?thesis by simp
  next
    case (Tuple_key s)
    then show ?thesis by simp
  qed
qed

lemma indexed_apart:
  assumes "indexed_with P st" "e \<in> set (entries st)" "heap st (snd e) = Some c"
  shows "inode_apart (inode c) (entries st)" and "tuple_apart (tuple c) (entries st)"
proof -
  from assms(1) have k: "kinds_apart (entries st)" by (simp add: indexed_with_def)
  from indexed_withD [OF assms(1,2)] assms(3)
  have "(Inode_key (inode c), snd e) \<in> set (entries st)" "(Tuple_key (tuple c), snd e) \<in> set (entries st)"
    by auto
  then have "Inode_key (inode c) \<in> fst ` set (entries st)" "Tuple_key (tuple c) \<in> fst ` set (entries st)"
    by (metis fst_conv image_eqI)+
  then show "inode_apart (inode c) (entries st)" and "tuple_apart (tuple c) (entries st)"
    using k by (simp_all add: kinds_apart_inode kinds_apart_tuple)
qed

lemma indexed_lookups:
  assumes "indexed_with P st" "e \<in> set (entries st)" "heap st (snd e) = Some c"
  shows "fst (connection_get_by_inode (inode c) st) = Some (snd e)"
    and "fst (connection_get_by_tuple (tuple c) st) = Some (snd e)"
proof -
  from assms(1) have d: "distinct (map fst (entries st))"
    by (simp add: indexed_with_def)
  from indexed_withD [OF assms(1,2)] assms(3)
  have "(Inode_key (inode c), snd e) \<in> set (entries st)"
    and "(Tuple_key (tuple c), snd e) \<in> set (entries st)"
    by auto
  with d indexed_apart [OF assms]
  show "fst (connection_get_by_inode (inode c) st) = Some (snd e)"
    and "fst (connection_get_by_tuple (tuple c) st) = Some (snd e)"
    by (simp_all add: get_by_inode_eq get_by_tuple_eq)
qed

subsection \<open>Scanning the fields of a line\<close>

lemma scan_set9_hex_str: "scan_set9 s = Some (a, r) \<Longrightarrow> hex_str a \<and> length a \<le> 9 \<and> s = a @ r"
proof -
  assume h: "scan_set9 s = Some (a, r)"
  let ?a = "takeWhile is_hex_digit (take 9 s)"
  from h have a: "a = ?a" and ne: "?a \<noteq> []" and r: "r = drop (length a) s"
    by (auto simp: scan_set9_def Let_def split: if_splits)
  have "\<forall>c \<in> set ?a. is_hex_digit c" by (auto dest: set_takeWhileD)
  moreover have "length ?a \<le> 9"
    using length_takeWhile_le [of is_hex_digit "take 9 s"] by simp
  moreover have "take (length ?a) s = ?a"
  proof -
    have "take (length ?a) (take 9 s) = ?a"
      by (metis takeWhile_eq_take)
    moreover have "take (length ?a) (take 9 s) = take (length ?a) s"
      using \<open>length ?a \<le> 9\<close> by (simp add: min_def)
    ultimately show ?thesis by simp
  qed
  ultimately show ?thesis using a ne r
    by (metis append_take_drop_id hex_str_def)
qed

lemma parse_line_hex_str:
  "parse_line l = Some p \<Longrightarrow> hex_str (cl_local_addr p) \<and> hex_str (cl_rem_addr p)"
  by (auto simp: parse_line_def Option.bind_eq_Some_conv dest!: scan_set9_hex_str)

lemma takeWhile_field:
  "\<forall>c \<in> set f. P c \<Longrightarrow> rest = [] \<or> \<not> P (hd rest) \<Longrightarrow>
     takeWhile P (f @ rest) = f \<and> dropWhile P (f @ rest) = rest"
proof (induction f)
  case Nil
  then show ?case by (cases rest) auto
next
  case (Cons a f)
  then show ?case by simp
qed

lemma hex_not_space: "is_hex_digit c \<Longrightarrow> \<not> isspace_c c"
  by (auto simp: is_hex_digit_def isspace_c_def)

lemma hex_not_sign: "is_hex_digit c \<Longrightarrow> c \<noteq> CHR ''-'' \<and> c \<noteq> CHR ''+'' \<and> c \<noteq> CHR ''x'' \<and> c \<noteq> CHR ''X''"
  by (auto simp: is_hex_digit_def)

lemma dec_not_space: "is_dec_digit c \<Longrightarrow> \<not> isspace_c c \<and> c \<noteq> CHR ''-'' \<and> c \<noteq> CHR ''+''"
  by (auto simp: is_dec_digit_def isspace_c_def)

lemma skip_ws_field: "ws_str w \<Longrightarrow> r = [] \<or> \<not> isspace_c (hd r) \<Longrightarrow> skip_ws (w @ r) = r"
  using takeWhile_field [of w isspace_c r] by (simp add: skip_ws_def ws_str_def)

lemma scan_sign_none: "s \<noteq> [] \<Longrightarrow> hd s \<noteq> CHR ''-'' \<Longrightarrow> hd s \<noteq> CHR ''+'' \<Longrightarrow> scan_sign s = (False, s)"
  by (cases s) (auto simp: scan_sign_def)

lemma scan_dec_field:
  assumes "ws_str w" "dec_str ds" "rest = [] \<or> \<not> is_dec_digit (hd rest)"
  shows "scan_dec (w @ ds @ rest) = Some (to_ulong False (digits_val 10 ds), rest)"
proof -
  from assms(2) obtain c ds' where ds: "ds = c # ds'" and c: "is_dec_digit c"
    by (cases ds) (auto simp: dec_str_def)
  have "skip_ws (w @ ds @ rest) = ds @ rest"
    using assms(1) c ds dec_not_space by (intro skip_ws_field) auto
  moreover have "scan_sign (ds @ rest) = (False, ds @ rest)"
    using c ds dec_not_space by (intro scan_sign_none) auto
  moreover have "takeWhile is_dec_digit (ds @ rest) = ds \<and> dropWhile is_dec_digit (ds @ rest) = rest"
    using assms(2,3) by (intro takeWhile_field) (auto simp: dec_str_def)
  ultimately show ?thesis using ds by (simp add: scan_dec_def)
qed

lemma scan_hex_field:
  assumes "ws_str w" "hex_str f"
    and "rest = [] \<or> (\<not> is_hex_digit (hd rest) \<and> hd rest \<noteq> CHR ''x'' \<and> hd rest \<noteq> CHR ''X'')"
  shows "scan_hex (w @ f @ rest) = Some (to_ulong False (digits_val 16 f), rest)"
proof -
  from assms(2) obtain c f' where f: "f = c # f'" and c: "is_hex_digit c"
    by (cases f) (auto simp: hex_str_def)
  have sk: "skip_ws (w @ f @ rest) = f @ rest"
    using assms(1) c f hex_not_space by (intro skip_ws_field) auto
  have sg: "scan_sign (f @ rest) = (False, f @ rest)"
    using c f hex_not_sign by (intro scan_sign_none) auto
  have tw: "takeWhile is_hex_digit (f @ rest) = f \<and> dropWhile is_hex_digit (f @ rest) = rest"
    using assms(2,3) by (intro takeWhile_field) (auto simp: hex_str_def)
  show ?thesis
  proof (cases "f' @ rest")
    case Nil
    then show ?thesis using sk sg f c by (simp add: scan_hex_def)
  next
    case (Cons cx t)
    have nx: "cx \<noteq> CHR ''x'' \<and> cx \<noteq> CHR ''X''"
    proof (cases f')
      case Nil
      with Cons assms(3) show ?thesis by auto
    next
      case (Cons c1 f'')
      with \<open>f' @ rest = cx # t\<close> have "cx = c1" by simp
      moreover have "is_hex_digit c1" using assms(2) f Cons by (simp add: hex_str_def)
      ultimately show ?thesis using hex_not_sign by blast
    qed
    have "f @ rest = c # cx # t" using f Cons by simp
    then show ?thesis using sk sg tw nx f by (simp add: scan_hex_def)
  qed
qed

lemma scan_hex_hex_str: "hex_str s \<Longrightarrow> scan_hex s = Some (to_ulong False (digits_val 16 s), [])"
  using scan_hex_field [of "[]" s "[]"] by (simp add: ws_str_def)

lemma scan_set9_field:
  assumes "hex_str a" "length a \<le> 9" "rest = [] \<or> \<not> is_hex_digit (hd rest)"
  shows "scan_set9 (a @ rest) = Some (a, rest)"
proof -
  have "take 9 (a @ rest) = a @ take (9 - length a) rest" using assms(2) by simp
  moreover have "take (9 - length a) rest = [] \<or> \<not> is_hex_digit (hd (take (9 - length a) rest))"
    using assms(3) by (cases rest; cases "9 - length a") auto
  ultimately have "takeWhile is_hex_digit (take 9 (a @ rest)) = a"
    using takeWhile_field [of a is_hex_digit "take (9 - length a) rest"] assms(1)
    by (simp add: hex_str_def)
  then show ?thesis using assms(1) by (simp add: scan_set9_def hex_str_def)
qed

lemma match_char_cons: "match_char c (c # r) = Some r"
  by (simp add: match_char_def)

lemma space_not_digit:
  "isspace_c c \<Longrightarrow> \<not> is_hex_digit c \<and> \<not> is_dec_digit c \<and> c \<noteq> CHR ''x'' \<and> c \<noteq> CHR ''X''"
  by (auto simp: is_hex_digit_def is_dec_digit_def isspace_c_def)

lemma colon_not_digit:
  "\<not> is_hex_digit CHR '':'' \<and> \<not> is_dec_digit CHR '':'' \<and> \<not> isspace_c CHR '':''"
  by (simp add: is_hex_digit_def is_dec_digit_def isspace_c_def)

lemma sep_hd: "sep_str w \<Longrightarrow> isspace_c (hd (w @ r)) \<and> w @ r \<noteq> []"
  by (cases w) (auto simp: sep_str_def ws_str_def)

lemma hex_hd: "hex_str f \<Longrightarrow> is_hex_digit (hd (f @ r)) \<and> f @ r \<noteq> []"
  by (cases f) (auto simp: hex_str_def)

lemma index_less_take:
  "c \<in> set (take n xs) \<Longrightarrow> length (takeWhile (\<lambda>x. x \<noteq> c) xs) < n"
proof (induction xs arbitrary: n)
  case Nil
  then show ?case by simp
next
  case (Cons x xs)
  then show ?case by (cases n) auto
qed

lemma digit_val_hex: "is_hex_digit c \<Longrightarrow> digit_val c < 16"
proof (cases "c \<in> set ''abcdef''")
  case True
  then have "length (takeWhile (\<lambda>x. x \<noteq> c) ''abcdef'') < 6"
    by (intro index_less_take) simp
  with True show ?thesis by (simp only: digit_val_def if_True)
next
  case False
  assume "is_hex_digit c"
  with False have "c \<in> set (take 16 ''0123456789ABCDEF'')"
    by (simp add: is_hex_digit_def)
  then have "length (takeWhile (\<lambda>x. x \<noteq> c) ''0123456789ABCDEF'') < 16"
    by (rule index_less_take)
  with False show ?thesis by (simp only: digit_val_def if_False)
qed

lemma digit_val_dec: "is_dec_digit c \<Longrightarrow> digit_val c < 10"
proof -
  assume d: "is_dec_digit c"
  then have n: "c \<notin> set ''abcdef''" by (auto simp: is_dec_digit_def)
  from d have "c \<in> set (take 10 ''0123456789ABCDEF'')"
    by (simp add: is_dec_digit_def)
  then have "length (takeWhile (\<lambda>x. x \<noteq> c) ''0123456789ABCDEF'') < 10"
    by (rule index_less_take)
  with n show ?thesis by (simp only: digit_val_def if_False)
qed

lemma digits_val_snoc: "digits_val b (s @ [c]) = digits_val b s * b + digit_val c"
  by (simp add: digits_val_def)

lemma digits_val_hex_bound: "\<forall>c \<in> set s. is_hex_digit c \<Longrightarrow> digits_val 16 s < 16 ^ length s"
proof (induction s rule: rev_induct)
  case Nil
  then show ?case by (simp add: digits_val_def)
next
  case (snoc c s)
  then have "digits_val 16 s < 16 ^ length s" and "digit_val c < 16"
    by (auto intro: digit_val_hex)
  then have "digits_val 16 s * 16 + digit_val c < 16 ^ length s * 16"
    by linarith
  then show ?case by (simp add: digits_val_snoc)
qed

lemma to_ulong_small: "v < 2 ^ 64 \<Longrightarrow> to_ulong False v = of_nat v"
  by (simp add: to_ulong_def)

lemma hex_field_value:
  assumes "hex_str f" "length f \<le> 16"
  shows "to_ulong False (digits_val 16 f) = of_nat (digits_val 16 f)"
proof -
  have "digits_val 16 f < 16 ^ length f"
    using assms(1) by (intro digits_val_hex_bound) (simp add: hex_str_def)
  also have "(16::nat) ^ length f \<le> 16 ^ 16"
    using assms(2) by (intro power_increasing) simp_all
  finally show ?thesis by (intro to_ulong_small) simp
qed

lemma ucast_of_nat_down:
  "LENGTH('b) \<le> LENGTH('a) \<Longrightarrow> (ucast (of_nat n :: 'a::len word) :: 'b::len word) = of_nat n"
  by (simp add: unsigned_of_nat word_of_nat_eq_iff take_bit_take_bit min_def)

lemma dec_field_value:
  "dec_str f \<Longrightarrow> digits_val 10 f < 2 ^ 64 \<Longrightarrow> to_ulong False (digits_val 10 f) = of_nat (digits_val 10 f)"
  by (rule to_ulong_small)

lemma addr_field_value:
  assumes "hex_str a" "length a \<le> 9"
  shows "scan_hex a = Some (of_nat (digits_val 16 a), [])"
  using scan_hex_hex_str [OF assms(1)] hex_field_value [of a] assms by simp

lemma parse_line_fields:
  assumes w: "ws_str w0" "ws_str w1" "sep_str w2" "sep_str w3" "sep_str w4" "sep_str w5"
      "sep_str w6" "sep_str w7" "sep_str w8" "sep_str w9"
    and d: "dec_str sl" "dec_str uid" "dec_str tmo" "dec_str ino"
    and a: "hex_str la" "length la \<le> 9" "hex_str ra" "length ra \<le> 9"
    and h: "hex_str lp" "hex_str rp" "hex_str st" "hex_str txq" "hex_str rxq" "hex_str tr"
      "hex_str tm" "hex_str retr"
    and r: "rest = [] \<or> \<not> is_dec_digit (hd rest)"
  shows "parse_line (w0 @ sl @ CHR '':'' # w1 @ la @ CHR '':'' # lp @ w2 @ ra @ CHR '':'' # rp @ w3 @ st @
            w4 @ txq @ CHR '':'' # rxq @ w5 @ tr @ CHR '':'' # tm @ w6 @ retr @ w7 @ uid @ w8 @ tmo @
            w9 @ ino @ rest) =
         Some \<lparr>cl_local_addr = la, cl_local_port = ucast (to_ulong False (digits_val 16 lp)),
               cl_rem_addr = ra, cl_rem_port = ucast (to_ulong False (digits_val 16 rp)),
               cl_state = ucast (to_ulong False (digits_val 16 st)),
               cl_inode = to_ulong False (digits_val 10 ino)\<rparr>"
proof -
  define r19 where "r19 = rest"
  define r18 where "r18 = w9 @ ino @ r19"
  define r17 where "r17 = w8 @ tmo @ r18"
  define r16 where "r16 = w7 @ uid @ r17"
  define r15 where "r15 = w6 @ retr @ r16"
  define r14 where "r14 = tm @ r15"
  define r13 where "r13 = CHR '':'' # r14"
  define r12 where "r12 = w5 @ tr @ r13"
  define r11 where "r11 = rxq @ r12"
  define r10 where "r10 = CHR '':'' # r11"
  define r9 where "r9 = w4 @ txq @ r10"
  define r8 where "r8 = w3 @ st @ r9"
  define r7 where "r7 = rp @ r8"
  define r6 where "r6 = CHR '':'' # r7"
  define r5 where "r5 = w2 @ ra @ r6"
  define r4 where "r4 = lp @ r5"
  define r3 where "r3 = CHR '':'' # r4"
  define r2 where "r2 = w1 @ la @ r3"
  define r1 where "r1 = CHR '':'' # r2"
  note rs = r1_def r2_def r3_def r4_def r5_def r6_def r7_def r8_def r9_def r10_def r11_def
    r12_def r13_def r14_def r15_def r16_def r17_def r18_def r19_def
  have s1: "scan_dec (w0 @ sl @ r1) = Some (to_ulong False (digits_val 10 sl), r1)"
    using w(1) d(1) colon_not_digit by (intro scan_dec_field) (simp_all add: r1_def)
  have s3: "scan_set9 (skip_ws r2) = Some (la, r3)"
  proof -
    have "skip_ws r2 = la @ r3"
      unfolding r2_def using w(2) hex_hd [OF a(1)] hex_not_space by (intro skip_ws_field) auto
    then show ?thesis using a(1,2) colon_not_digit by (simp add: scan_set9_field r3_def)
  qed
  have s5: "scan_hex r4 = Some (to_ulong False (digits_val 16 lp), r5)"
    using scan_hex_field [of "[]" lp r5] h(1) sep_hd [OF w(3)] space_not_digit
    by (simp add: r4_def r5_def ws_str_def)
  have s6: "scan_set9 (skip_ws r5) = Some (ra, r6)"
  proof -
    have "skip_ws r5 = ra @ r6"
      unfolding r5_def using w(3) hex_hd [OF a(3)] hex_not_space
      by (intro skip_ws_field) (auto simp: sep_str_def)
    then show ?thesis using a(3,4) colon_not_digit by (simp add: scan_set9_field r6_def)
  qed
  have s8: "scan_hex r7 = Some (to_ulong False (digits_val 16 rp), r8)"
    using scan_hex_field [of "[]" rp r8] h(2) sep_hd [OF w(4)] space_not_digit
    by (simp add: r7_def r8_def ws_str_def)
  have s9: "scan_hex r8 = Some (to_ulong False (digits_val 16 st), r9)"
    using scan_hex_field [of w3 st r9] h(3) w(4) sep_hd [OF w(5)] space_not_digit
    by (simp add: r8_def r9_def sep_str_def)
  have s10: "scan_hex r9 = Some (to_ulong False (digits_val 16 txq), r10)"
    using scan_hex_field [of w4 txq r10] h(4) w(5) colon_not_digit
    by (simp add: r9_def r10_def sep_str_def)
  have s12: "scan_hex r11 = Some (to_ulong False (digits_val 16 rxq), r12)"
    using scan_hex_field [of "[]" rxq r12] h(5) sep_hd [OF w(6)] space_not_digit
    by (simp add: r11_def r12_def ws_str_def)
  have s13: "scan_hex r12 = Some (to_ulong False (digits_val 16 tr), r13)"
    using scan_hex_field [of w5 tr r13] h(6) w(6) colon_not_digit
    by (simp add: r12_def r13_def sep_str_def)
  have s15: "scan_hex r14 = Some (to_ulong False (digits_val 16 tm), r15)"
    using scan_hex_field [of "[]" tm r15] h(7) sep_hd [OF w(7)] space_not_digit
    by (simp add: r14_def r15_def ws_str_def)
  have s16: "scan_hex r15 = Some (to_ulong False (digits_val 16 retr), r16)"
    using scan_hex_field [of w6 retr r16] h(8) w(7) sep_hd [OF w(8)] space_not_digit
    by (simp add: r15_def r16_def sep_str_def)
  have s17: "scan_dec r16 = Some (to_ulong False (digits_val 10 uid), r17)"
    using scan_dec_field [of w7 uid r17] d(2) w(8) sep_hd [OF w(9)] space_not_digit
    by (simp add: r16_def r17_def sep_str_def)
  have s18: "scan_dec r17 = Some (to_ulong False (digits_val 10 tmo), r18)"
    using scan_dec_field [of w8 tmo r18] d(3) w(9) sep_hd [OF w(10)] space_not_digit
    by (simp add: r17_def r18_def sep_str_def)
  have s19: "scan_dec r18 = Some (to_ulong False (digits_val 10 ino), r19)"
    using scan_dec_field [of w9 ino r19] d(4) w(10) r
    by (simp add: r18_def r19_def sep_str_def)
  have m: "match_char CHR '':'' r1 = Some r2" "match_char CHR '':'' r3 = Some r4"
    "match_char CHR '':'' r6 = Some r7" "match_char CHR '':'' r10 = Some r11"
    "match_char CHR '':'' r13 = Some r14"
    by (simp_all add: r1_def r3_def r6_def r10_def r13_def match_char_cons)
  have eq: "w0 @ sl @ CHR '':'' # w1 @ la @ CHR '':'' # lp @ w2 @ ra @ CHR '':'' # rp @ w3 @ st @
            w4 @ txq @ CHR '':'' # rxq @ w5 @ tr @ CHR '':'' # tm @ w6 @ retr @ w7 @ uid @ w8 @ tmo @
            w9 @ ino @ rest = w0 @ sl @ r1"
    by (simp add: rs)
  show ?thesis
    unfolding parse_line_def eq
    by (simp add: s1 s3 s5 s6 s8 s9 s10 s12 s13 s15 s16 s17 s18 s19 m)
qed

lemma no_clash_inode:
  "parse_line l = Some p \<Longrightarrow> line_accepted p \<Longrightarrow> \<not> tuple_clash protocol l st \<Longrightarrow>
     inode_apart (cl_inode p) (entries st)"
  by (simp add: tuple_clash_def)

lemma no_clash_tuple:
  assumes "parse_line l = Some p" "line_accepted p" "\<not> tuple_clash protocol l st"
    and "map_of (entries st) (Inode_key (cl_inode p)) = None"
  shows "Tuple_key (line_tuple protocol p) \<notin> fst ` set (entries st)"
    and "tuple_apart (line_tuple protocol p) (entries st)"
    and "tuple_head (line_tuple protocol p) \<noteq> cl_inode p"
proof -
  have ia: "inode_apart (cl_inode p) (entries st)" using assms(1-3) by (rule no_clash_inode)
  then have "fst (connection_get_by_inode (cl_inode p) st) = None"
    using assms(4) by (simp add: get_by_inode_eq)
  with assms(1-3) ia
  have c: "fst (connection_get_by_tuple (line_tuple protocol p) st) = None"
    and ta: "tuple_apart (line_tuple protocol p) (entries st)"
    and hd: "tuple_head (line_tuple protocol p) \<noteq> cl_inode p"
    by (simp_all add: tuple_clash_def)
  from c ta show "Tuple_key (line_tuple protocol p) \<notin> fst ` set (entries st)"
    by (simp add: get_by_tuple_eq map_of_eq_None_iff)
  from ta show "tuple_apart (line_tuple protocol p) (entries st)" .
  from hd show "tuple_head (line_tuple protocol p) \<noteq> cl_inode p" .
qed

subsection \<open>One line of the file\<close>

lemma process_line_malformed: "parse_line l = None \<Longrightarrow> process_line protocol l st = (False, st)"
  by (simp add: process_line_def)

lemma process_line_skip:
  "parse_line l = Some p \<Longrightarrow> \<not> line_accepted p \<Longrightarrow> process_line protocol l st = (True, st)"
  by (auto simp: process_line_def line_accepted_def)

lemma process_line_found_by_inode:
  assumes "parse_line l = Some p" "line_accepted p"
    and "fst (connection_get_by_inode (cl_inode p) st) = Some a" "heap st a = Some c"
  shows "process_line protocol l st =
           (True, st\<lparr>key_type := KEY_INODE, heap := (heap st)(a \<mapsto> c\<lparr>active := True\<rparr>)\<rparr>)"
  using assms
  by (simp add: process_line_def line_accepted_def connection_get_by_inode_def with_conn_def)

lemma process_line_refresh:
  assumes "parse_line l = Some p" "line_accepted p" "inode_apart (cl_inode p) (entries st)"
    and "map_of (entries st) (Inode_key (cl_inode p)) = Some a" "heap st a = Some c"
  shows "process_line protocol l st =
           (True, st\<lparr>key_type := KEY_INODE, heap := (heap st)(a \<mapsto> c\<lparr>active := True\<rparr>)\<rparr>)"
proof -
  have "fst (connection_get_by_inode (cl_inode p) st) = Some a"
    using assms(3,4) by (simp add: get_by_inode_eq)
  with assms(1,2) show ?thesis using assms(5) by (rule process_line_found_by_inode)
qed

lemma create_new_conn_parsed:
  assumes "parse_line l = Some p"
  shows "create_new_conn (cl_inode p) (cl_local_addr p) (cl_rem_addr p) (cl_local_port p)
           (cl_rem_port p) (cl_state p) protocol st =
         (Some (next_addr st),
          st\<lparr>heap := (heap st)(next_addr st \<mapsto> (line_conn protocol p)\<lparr>use := 0\<rparr>),
             next_addr := Suc (next_addr st)\<rparr>)"
proof -
  from parse_line_hex_str [OF assms]
  have "scan_hex (cl_local_addr p) = Some (to_ulong False (digits_val 16 (cl_local_addr p)), [])"
    and "scan_hex (cl_rem_addr p) = Some (to_ulong False (digits_val 16 (cl_rem_addr p)), [])"
    by (simp_all add: scan_hex_hex_str)
  then show ?thesis
    by (simp add: create_new_conn_def line_conn_def line_tuple_def addr_value_def)
qed

lemma tuple_apart_snoc:
  "tuple_apart t es \<Longrightarrow> tuple_head t \<noteq> i \<Longrightarrow> tuple_apart t (es @ [(Inode_key i, a)])"
  by (simp add: tuple_apart_def)

lemma connection_insert_fresh:
  assumes "ht_connections st = Some es" "heap st a = Some c"
    and "Inode_key (inode c) \<notin> fst ` set es" "Tuple_key (tuple c) \<notin> fst ` set es"
    and "inode_apart (inode c) es" "tuple_apart (tuple c) es" "tuple_head (tuple c) \<noteq> inode c"
  shows "connection_insert a st =
           st\<lparr>key_type := KEY_TUPLE, heap := (heap st)(a \<mapsto> c\<lparr>use := 2\<rparr>),
              ht_connections := Some (es @ [(Inode_key (inode c), a), (Tuple_key (tuple c), a)])\<rparr>"
proof -
  have s1: "hashtable_set (ht_cb_compare KEY_INODE) es (Inode_key (inode c)) a =
              es @ [(Inode_key (inode c), a)]"
    using assms(3,5) by (intro hashtable_set_fresh cmp_inode)
  have ta: "tuple_apart (tuple c) (es @ [(Inode_key (inode c), a)])"
    using assms(6,7) by (rule tuple_apart_snoc)
  have s2: "hashtable_set (ht_cb_compare KEY_TUPLE) (es @ [(Inode_key (inode c), a)])
              (Tuple_key (tuple c)) a =
              (es @ [(Inode_key (inode c), a)]) @ [(Tuple_key (tuple c), a)]"
    using assms(4) by (intro hashtable_set_fresh cmp_tuple [OF ta]) simp_all
  show ?thesis
    using assms(1,2)
    by (simp add: connection_insert_def connection_insert_by_inode_def connection_insert_by_tuple_def
        with_conn_def ht_set_def s1 s2)
qed

lemma process_line_insert:
  assumes "parse_line l = Some p" "line_accepted p" "ht_connections st = Some es"
    and "Inode_key (cl_inode p) \<notin> fst ` set es"
    and "Tuple_key (line_tuple protocol p) \<notin> fst ` set es"
    and "inode_apart (cl_inode p) es" "tuple_apart (line_tuple protocol p) es"
    and "tuple_head (line_tuple protocol p) \<noteq> cl_inode p"
  shows "process_line protocol l st =
           (True, st\<lparr>key_type := KEY_TUPLE,
                    heap := (heap st)(next_addr st \<mapsto> line_conn protocol p),
                    next_addr := Suc (next_addr st),
                    ht_connections := Some (es @ [(Inode_key (cl_inode p), next_addr st),
                                                   (Tuple_key (line_tuple protocol p), next_addr st)])\<rparr>)"
proof -
  have en: "entries st = es" using assms(3) by (simp add: entries_def)
  have g: "map_of (entries st) (Inode_key (cl_inode p)) = None"
    using assms(4) en by (simp add: map_of_eq_None_iff)
  have ia: "inode_apart (cl_inode p) (entries (st\<lparr>key_type := KEY_INODE\<rparr>))"
    using assms(6) en by simp
  let ?st2 = "st\<lparr>key_type := KEY_INODE,
      heap := (heap st)(next_addr st \<mapsto> (line_conn protocol p)\<lparr>use := 0\<rparr>),
      next_addr := Suc (next_addr st)\<rparr>"
  have "connection_insert (next_addr st) ?st2 =
      ?st2\<lparr>key_type := KEY_TUPLE,
        heap := (heap ?st2)(next_addr st \<mapsto> (line_conn protocol p)\<lparr>use := 0, use := 2\<rparr>),
        ht_connections := Some (es @ [(Inode_key (inode ((line_conn protocol p)\<lparr>use := 0\<rparr>)), next_addr st),
                                       (Tuple_key (tuple ((line_conn protocol p)\<lparr>use := 0\<rparr>)), next_addr st)])\<rparr>"
    using assms(3-8) by (intro connection_insert_fresh) (simp_all add: line_conn_def)
  then show ?thesis
    using assms(1,2) g ia en create_new_conn_parsed [OF assms(1), of protocol "st\<lparr>key_type := KEY_INODE\<rparr>"]
    by (simp add: process_line_def line_accepted_def get_by_inode_eq line_conn_def)
qed

lemma process_line_insert_nc:
  assumes "parse_line l = Some p" "line_accepted p" "ht_connections st = Some es"
    and "Inode_key (cl_inode p) \<notin> fst ` set es" "\<not> tuple_clash protocol l st"
  shows "process_line protocol l st =
           (True, st\<lparr>key_type := KEY_TUPLE,
                    heap := (heap st)(next_addr st \<mapsto> line_conn protocol p),
                    next_addr := Suc (next_addr st),
                    ht_connections := Some (es @ [(Inode_key (cl_inode p), next_addr st),
                                                   (Tuple_key (line_tuple protocol p), next_addr st)])\<rparr>)"
proof -
  have en: "entries st = es" using assms(3) by (simp add: entries_def)
  have m: "map_of (entries st) (Inode_key (cl_inode p)) = None"
    using assms(4) en by (simp add: map_of_eq_None_iff)
  have ia: "inode_apart (cl_inode p) es"
    using no_clash_inode [OF assms(1,2,5)] en by simp
  have nt: "Tuple_key (line_tuple protocol p) \<notin> fst ` set es"
    "tuple_apart (line_tuple protocol p) es" "tuple_head (line_tuple protocol p) \<noteq> cl_inode p"
    using no_clash_tuple [OF assms(1,2,5) m] en by simp_all
  show ?thesis using assms(1,2,3,4) nt(1) ia nt(2,3) by (rule process_line_insert)
qed

lemma indexed_with_heap_upd:
  assumes "indexed_with P st" "heap st a = Some c" "inode c' = inode c" "tuple c' = tuple c"
    and "\<And>b d. b \<noteq> a \<Longrightarrow> P b d \<Longrightarrow> Q b d" and "a \<in> snd ` set (entries st) \<Longrightarrow> Q a c'"
  shows "indexed_with Q (st\<lparr>heap := (heap st)(a \<mapsto> c')\<rparr>)"
  unfolding indexed_with_def
proof (intro conjI ballI)
  show "ht_connections (st\<lparr>heap := (heap st)(a \<mapsto> c')\<rparr>) \<noteq> None"
    using assms(1) by (simp add: indexed_with_def)
  show "distinct (map fst (entries (st\<lparr>heap := (heap st)(a \<mapsto> c')\<rparr>)))"
    using assms(1) by (simp add: indexed_with_def)
  show "kinds_apart (entries (st\<lparr>heap := (heap st)(a \<mapsto> c')\<rparr>))"
    using assms(1) by (simp add: indexed_with_def)
  fix e assume "e \<in> set (entries (st\<lparr>heap := (heap st)(a \<mapsto> c')\<rparr>))"
  then have e: "e \<in> set (entries st)" by simp
  from indexed_withD [OF assms(1) e] obtain d where d: "heap st (snd e) = Some d"
    "fst e = Inode_key (inode d) \<or> fst e = Tuple_key (tuple d)"
    "(Inode_key (inode d), snd e) \<in> set (entries st)"
    "(Tuple_key (tuple d), snd e) \<in> set (entries st)"
    "snd e < next_addr st" "P (snd e) d" by blast
  show "entry_ok Q (st\<lparr>heap := (heap st)(a \<mapsto> c')\<rparr>) e"
  proof (cases "snd e = a")
    case True
    with d assms(2) have "d = c" by simp
    moreover have "Q a c'" using e True assms(6) by force
    ultimately show ?thesis using d True assms(3,4) by (simp add: entry_ok_def)
  next
    case False
    with d assms(5) show ?thesis by (simp add: entry_ok_def)
  qed
qed

lemma inode_apart_append:
  "inode_apart i (es @ xs) = (inode_apart i es \<and> inode_apart i xs)"
  by (auto simp: inode_apart_def)

lemma kinds_apart_insert:
  assumes "kinds_apart es" "inode_apart i es" "tuple_apart t es" "tuple_head t \<noteq> i"
  shows "kinds_apart (es @ [(Inode_key i, a), (Tuple_key t, a)])"
  unfolding kinds_apart_def
proof
  fix e assume e: "e \<in> set (es @ [(Inode_key i, a), (Tuple_key t, a)])"
  let ?es = "es @ [(Inode_key i, a), (Tuple_key t, a)]"
  show "case fst e of Inode_key j \<Rightarrow> inode_apart j ?es | Tuple_key s \<Rightarrow> True"
  proof (cases "fst e")
    case (Tuple_key s)
    then show ?thesis by simp
  next
    case (Inode_key j)
    have "inode_apart j es \<and> tuple_head t \<noteq> j"
    proof (cases "e \<in> set es")
      case True
      then have m: "(Inode_key j, snd e) \<in> set es" using Inode_key by (metis prod.collapse)
      then have "Inode_key j \<in> fst ` set es" by (metis fst_conv image_eqI)
      with assms(1) have "inode_apart j es" by (rule kinds_apart_inode)
      moreover from assms(3) m have "tuple_head t \<noteq> j" by (rule tuple_apartD)
      ultimately show ?thesis by simp
    next
      case False
      with e Inode_key have "j = i" by auto
      with assms(2,4) show ?thesis by simp
    qed
    then have "inode_apart j ?es" by (simp add: inode_apart_append) (simp add: inode_apart_def)
    with Inode_key show ?thesis by simp
  qed
qed

lemma process_line_dual_indexed:
  assumes "dual_indexed st" "\<not> tuple_clash protocol l st"
  shows "dual_indexed (snd (process_line protocol l st))"
proof (cases "parse_line l")
  case None
  then show ?thesis using assms(1) by (simp add: process_line_malformed)
next
  case (Some p)
  show ?thesis
  proof (cases "line_accepted p")
    case False
    then show ?thesis using Some assms(1) by (simp add: process_line_skip)
  next
    case True
    from assms(1) have ix: "indexed_with use_ok st" by (simp add: dual_indexed_def)
    then obtain es where es: "ht_connections st = Some es" "entries st = es"
      by (auto simp: indexed_with_def entries_def)
    have ia: "inode_apart (cl_inode p) (entries st)"
      using \<open>parse_line l = Some p\<close> True assms(2) by (rule no_clash_inode)
    show ?thesis
    proof (cases "map_of es (Inode_key (cl_inode p))")
      case (Some a)
      then have e: "(Inode_key (cl_inode p), a) \<in> set (entries st)"
        using es by (auto dest: map_of_SomeD)
      from indexed_withD [OF ix e] obtain c where c: "heap st a = Some c" "use_ok a c"
        by auto
      let ?st1 = "st\<lparr>key_type := KEY_INODE\<rparr>"
      have s1: "indexed_with use_ok ?st1" "heap ?st1 a = Some c" using ix c by simp_all
      have "indexed_with use_ok (?st1\<lparr>heap := (heap ?st1)(a \<mapsto> c\<lparr>active := True\<rparr>)\<rparr>)"
        using c(2) by (intro indexed_with_heap_upd [OF s1]) (auto simp: use_ok_def)
      then show ?thesis
        using process_line_refresh [OF \<open>parse_line l = Some p\<close> True ia, of a c protocol] Some es c
        by (simp add: dual_indexed_def)
    next
      case None
      then have ni: "Inode_key (cl_inode p) \<notin> fst ` set es"
        by (simp add: map_of_eq_None_iff)
      have nc: "Tuple_key (line_tuple protocol p) \<notin> fst ` set (entries st)"
        "tuple_apart (line_tuple protocol p) (entries st)"
        "tuple_head (line_tuple protocol p) \<noteq> cl_inode p"
        using no_clash_tuple [OF \<open>parse_line l = Some p\<close> True assms(2)] None es by simp_all
      have nt: "Tuple_key (line_tuple protocol p) \<notin> fst ` set es" using nc(1) es by simp
      have ka: "kinds_apart es" using ix es by (simp add: indexed_with_def)
      let ?n = "next_addr st"
      let ?es' = "es @ [(Inode_key (cl_inode p), ?n), (Tuple_key (line_tuple protocol p), ?n)]"
      let ?st' = "st\<lparr>key_type := KEY_TUPLE,
                    heap := (heap st)(?n \<mapsto> line_conn protocol p),
                    next_addr := Suc ?n, ht_connections := Some ?es'\<rparr>"
      have pl: "process_line protocol l st = (True, ?st')"
        using ia nc(2,3) es(2)
        by (intro process_line_insert [OF \<open>parse_line l = Some p\<close> True es(1) ni nt]) simp_all
      have "indexed_with use_ok ?st'"
        unfolding indexed_with_def
      proof (intro conjI ballI)
        show "ht_connections ?st' \<noteq> None" by simp
        show "distinct (map fst (entries ?st'))"
          using ix es ni nt by (auto simp: indexed_with_def)
        show "kinds_apart (entries ?st')"
          using ka ia nc(2,3) es(2) by (simp add: kinds_apart_insert)
        fix e assume "e \<in> set (entries ?st')"
        then consider "e \<in> set es" | "e = (Inode_key (cl_inode p), ?n)"
          | "e = (Tuple_key (line_tuple protocol p), ?n)" by auto
        then show "entry_ok use_ok ?st' e"
        proof cases
          case 1
          from indexed_withD [OF ix] 1 es obtain d where d: "heap st (snd e) = Some d"
            "fst e = Inode_key (inode d) \<or> fst e = Tuple_key (tuple d)"
            "(Inode_key (inode d), snd e) \<in> set es"
            "(Tuple_key (tuple d), snd e) \<in> set es"
            "snd e < next_addr st" "use_ok (snd e) d" by metis
          then show ?thesis by (simp add: entry_ok_def)
        next
          case 2
          then show ?thesis by (simp add: entry_ok_def line_conn_def use_ok_def)
        next
          case 3
          then show ?thesis by (simp add: entry_ok_def line_conn_def use_ok_def)
        qed
      qed
      then show ?thesis using pl by (simp add: dual_indexed_def)
    qed
  qed
qed

text \<open>
  C7, amended. The operations of connection.c on the table (\<open>connection_get_by_inode\<close>,
  \<open>connection_get_by_tuple\<close>, \<open>connection_insert\<close>, \<open>connection_remove\<close>) each write
  \<open>key_type\<close> before they call the hash index, so their result does not depend on the value
  \<open>key_type\<close> had before the call.
\<close>

theorem wrappers_set_key_type:
  "connection_get_by_inode i (st\<lparr>key_type := kt\<rparr>) = connection_get_by_inode i st \<and>
   connection_get_by_tuple t (st\<lparr>key_type := kt\<rparr>) = connection_get_by_tuple t st \<and>
   connection_insert a (st\<lparr>key_type := kt\<rparr>) = connection_insert a st \<and>
   connection_remove a (st\<lparr>key_type := kt\<rparr>) = connection_remove a st"
  by (simp add: connection_get_by_inode_def connection_get_by_tuple_def connection_insert_def
      connection_insert_by_inode_def connection_insert_by_tuple_def connection_remove_def
      connection_remove_by_inode_def connection_remove_by_tuple_def with_conn_def
      split: option.split)





subsection \<open>The aging pass\<close>

lemma distinct_map_fst_filter:
  "distinct (map fst es) \<Longrightarrow> distinct (map fst (filter P es))"
  by (simp add: distinct_map_filter)

lemma map_of_entry: "distinct (map fst es) \<Longrightarrow> (k, v) \<in> set es \<Longrightarrow> map_of es k = Some v"
  by simp

lemma inode_apart_subset: "inode_apart i es \<Longrightarrow> set es' \<subseteq> set es \<Longrightarrow> inode_apart i es'"
  unfolding inode_apart_def by (meson subsetD)

lemma tuple_apart_subset: "tuple_apart t es \<Longrightarrow> set es' \<subseteq> set es \<Longrightarrow> tuple_apart t es'"
  unfolding tuple_apart_def by (meson subsetD)

lemma kinds_apart_subset:
  assumes "kinds_apart es" "set es' \<subseteq> set es"
  shows "kinds_apart es'"
  unfolding kinds_apart_def
proof
  fix e assume e: "e \<in> set es'"
  show "case fst e of Inode_key i \<Rightarrow> inode_apart i es' | Tuple_key t \<Rightarrow> True"
  proof (cases "fst e")
    case (Inode_key i)
    from e assms(2) have "e \<in> set es" by blast
    then have "Inode_key i \<in> fst ` set es" using Inode_key by (metis image_eqI)
    with assms(1) have "inode_apart i es" by (rule kinds_apart_inode)
    then have "inode_apart i es'" using assms(2) by (rule inode_apart_subset)
    with Inode_key show ?thesis by simp
  next
    case (Tuple_key t)
    then show ?thesis by simp
  qed
qed

lemma remove_dead_conn_cases:
  assumes ix: "indexed_with P st" and e: "e \<in> set (entries st)" and c: "heap st (snd e) = Some c"
  shows "next_addr (remove_dead_conn (snd e) st) = next_addr st \<and>
         faults (remove_dead_conn (snd e) st) = faults st \<and>
         ht_connections (remove_dead_conn (snd e) st) \<noteq> None \<and>
         (if active c then
            entries (remove_dead_conn (snd e) st) = entries st \<and>
            heap (remove_dead_conn (snd e) st) = (heap st)(snd e \<mapsto> c\<lparr>active := False\<rparr>)
          else if use c = 1 then
            entries (remove_dead_conn (snd e) st) = filter (\<lambda>x. snd x \<noteq> snd e) (entries st) \<and>
            heap (remove_dead_conn (snd e) st) = (heap st)(snd e := None)
          else
            entries (remove_dead_conn (snd e) st) = entries st \<and>
            heap (remove_dead_conn (snd e) st) = (heap st)(snd e \<mapsto> c\<lparr>use := use c - 1\<rparr>))"
proof -
  let ?a = "snd e"
  from ix obtain es where es: "ht_connections st = Some es" "entries st = es"
    and d: "distinct (map fst es)"
    by (auto simp: indexed_with_def entries_def)
  from indexed_withD [OF ix e] c
  have kI: "(Inode_key (inode c), ?a) \<in> set es" and kT: "(Tuple_key (tuple c), ?a) \<in> set es"
    using es by auto
  show ?thesis
  proof (cases "active c")
    case True
    then show ?thesis using c es by (simp add: remove_dead_conn_def with_conn_def)
  next
    case False
    show ?thesis
    proof (cases "use c = 1")
      case False
      with \<open>\<not> active c\<close> show ?thesis
        using c es by (simp add: remove_dead_conn_def with_conn_def Let_def)
    next
      case True
      let ?I = "Inode_key (inode c)" and ?T = "Tuple_key (tuple c)"
      let ?es1 = "filter (\<lambda>x. fst x \<noteq> ?I) es"
      let ?es2 = "filter (\<lambda>x. fst x \<noteq> ?T) ?es1"
      have d1: "distinct (map fst ?es1)" using d by (rule distinct_map_fst_filter)
      have m1: "map_of es ?I = Some ?a" using d kI by (rule map_of_entry)
      have "(?T, ?a) \<in> set ?es1" using kT by simp
      with d1 have m2: "map_of ?es1 ?T = Some ?a" by (rule map_of_entry)
      have ia: "inode_apart (inode c) es" and ta: "tuple_apart (tuple c) es"
        using indexed_apart [OF ix e c] es by simp_all
      have ta1: "tuple_apart (tuple c) ?es1" using ta by (rule tuple_apart_subset) simp
      have "hashtable_remove (ht_cb_compare KEY_INODE) es ?I =
              (map_of es ?I, filter (\<lambda>e. fst e \<noteq> ?I) es)"
        using d by (intro hashtable_remove_filter cmp_inode [OF ia])
      then have r1: "hashtable_remove (ht_cb_compare KEY_INODE) es ?I = (Some ?a, ?es1)"
        using m1 by simp
      have "hashtable_remove (ht_cb_compare KEY_TUPLE) ?es1 ?T =
              (map_of ?es1 ?T, filter (\<lambda>e. fst e \<noteq> ?T) ?es1)"
        using d1 by (intro hashtable_remove_filter cmp_tuple [OF ta1])
      then have r2: "hashtable_remove (ht_cb_compare KEY_TUPLE) ?es1 ?T = (Some ?a, ?es2)"
        using m2 by simp
      have flt: "?es2 = filter (\<lambda>x. snd x \<noteq> ?a) es"
      proof -
        have pt: "\<And>x. x \<in> set es \<Longrightarrow> (fst x \<noteq> ?I \<and> fst x \<noteq> ?T) = (snd x \<noteq> ?a)"
        proof -
          fix x assume x: "x \<in> set es"
          show "(fst x \<noteq> ?I \<and> fst x \<noteq> ?T) = (snd x \<noteq> ?a)"
          proof (cases "snd x = ?a")
            case True
            from indexed_withD [OF ix] x es c True
            have "fst x = ?I \<or> fst x = ?T" by (metis option.inject)
            with True show ?thesis by auto
          next
            case False
            have "fst x \<noteq> ?I"
            proof
              assume "fst x = ?I"
              then have "(?I, snd x) \<in> set es" using x by (metis prod.collapse)
              with d kI have "snd x = ?a" by (meson eq_key_imp_eq_value)
              with False show False by simp
            qed
            moreover have "fst x \<noteq> ?T"
            proof
              assume "fst x = ?T"
              then have "(?T, snd x) \<in> set es" using x by (metis prod.collapse)
              with d kT have "snd x = ?a" by (meson eq_key_imp_eq_value)
              with False show False by simp
            qed
            ultimately show ?thesis using False by simp
          qed
        qed
        have "?es2 = filter (\<lambda>x. fst x \<noteq> ?I \<and> fst x \<noteq> ?T) es" by simp
        also have "\<dots> = filter (\<lambda>x. snd x \<noteq> ?a) es"
          by (rule filter_cong) (simp_all add: pt)
        finally show ?thesis .
      qed
      have "remove_dead_conn ?a st =
              st\<lparr>heap := (heap st)(?a := None), key_type := KEY_TUPLE, ht_connections := Some ?es2\<rparr>"
        using c es True \<open>\<not> active c\<close> r1 r2
        by (simp add: remove_dead_conn_def with_conn_def Let_def connection_remove_def
            connection_remove_by_inode_def connection_remove_by_tuple_def ht_remove_def
            ht_cb_free_def c_free_def)
      then show ?thesis using True \<open>\<not> active c\<close> flt es by simp
    qed
  qed
qed

lemma aging_inv_fields:
  "aging_inv rest st0 a c \<Longrightarrow>
     \<exists>c0. heap st0 a = Some c0 \<and> inode c = inode c0 \<and> tuple c = tuple c0 \<and> use_ok a c0"
  by (auto simp: aging_inv_def split: option.splits if_splits)

lemma aging_inv_drop:
  assumes "aging_inv (e # rest) st0 a c"
    and "e \<noteq> (Inode_key (inode c), a)" "e \<noteq> (Tuple_key (tuple c), a)"
  shows "aging_inv rest st0 a c"
proof -
  from aging_inv_fields [OF assms(1)] obtain c0 where c0: "heap st0 a = Some c0"
    "inode c = inode c0" "tuple c = tuple c0" by blast
  with assms(2,3) have eq: "((Inode_key (inode c0), a) \<in> set (e # rest)) = ((Inode_key (inode c0), a) \<in> set rest)"
    "((Tuple_key (tuple c0), a) \<in> set (e # rest)) = ((Tuple_key (tuple c0), a) \<in> set rest)"
    by auto
  from assms(1) show ?thesis by (simp only: aging_inv_def c0(1) option.case eq) blast
qed

lemma aging_step_skip:
  assumes J: "aging_state (e # rest) st0 st" and ne: "e \<notin> set (entries st)"
  shows "aging_state rest st0 st"
proof -
  from J have ix: "indexed_with (aging_inv (e # rest) st0) st" by (simp add: aging_state_def)
  have "indexed_with (aging_inv rest st0) st"
    unfolding indexed_with_def
  proof (intro conjI ballI)
    show "ht_connections st \<noteq> None" "distinct (map fst (entries st))" "kinds_apart (entries st)"
      using ix by (simp_all add: indexed_with_def)
    fix x assume x: "x \<in> set (entries st)"
    from indexed_withD [OF ix x] obtain d where d: "heap st (snd x) = Some d"
      "fst x = Inode_key (inode d) \<or> fst x = Tuple_key (tuple d)"
      "(Inode_key (inode d), snd x) \<in> set (entries st)"
      "(Tuple_key (tuple d), snd x) \<in> set (entries st)"
      "snd x < next_addr st" "aging_inv (e # rest) st0 (snd x) d" by blast
    have "aging_inv rest st0 (snd x) d"
      using d(6) by (rule aging_inv_drop) (use d(3,4) ne in auto)
    with d show "entry_ok (aging_inv rest st0) st x" by (simp add: entry_ok_def)
  qed
  with J show ?thesis by (simp add: aging_state_def)
qed

lemma aging_step_visit:
  assumes J: "aging_state (e # rest) st0 st" and ie: "e \<in> set (entries st)"
  shows "aging_state rest st0 (remove_dead_conn (snd e) st)"
proof -
  let ?a = "snd e" and ?st' = "remove_dead_conn (snd e) st"
  from J have ix: "indexed_with (aging_inv (e # rest) st0) st"
    and dr: "e \<notin> set rest" "distinct rest"
    and sub: "set (entries st) \<subseteq> set (entries st0)"
    and surv: "\<And>x c0. x \<in> set (entries st0) \<Longrightarrow> heap st0 (snd x) = Some c0 \<Longrightarrow> use c0 = 2
                 \<Longrightarrow> x \<in> set (entries st)"
    and na: "next_addr st = next_addr st0" and fl: "faults st = faults st0"
    by (auto simp: aging_state_def)
  from indexed_withD [OF ix ie] obtain c where c: "heap st ?a = Some c"
    and ce: "fst e = Inode_key (inode c) \<or> fst e = Tuple_key (tuple c)"
    and cI: "(Inode_key (inode c), ?a) \<in> set (entries st)"
    and cT: "(Tuple_key (tuple c), ?a) \<in> set (entries st)"
    and cn: "?a < next_addr st"
    and ca: "aging_inv (e # rest) st0 ?a c" by blast
  from aging_inv_fields [OF ca] obtain c0 where c0: "heap st0 ?a = Some c0"
    "inode c = inode c0" "tuple c = tuple c0" "use_ok ?a c0" by blast
  have e_eq: "e = (Inode_key (inode c0), ?a) \<or> e = (Tuple_key (tuple c0), ?a)"
    using ce c0(2,3) by (metis prod.collapse)
  note rc = remove_dead_conn_cases [OF ix ie c]
  have rc0: "next_addr ?st' = next_addr st" "faults ?st' = faults st" "ht_connections ?st' \<noteq> None"
    using rc by simp_all
  have rcA: "active c \<Longrightarrow> entries ?st' = entries st \<and> heap ?st' = (heap st)(?a \<mapsto> c\<lparr>active := False\<rparr>)"
    using rc by simp
  have rcB: "\<not> active c \<Longrightarrow> use c = 1 \<Longrightarrow>
      entries ?st' = filter (\<lambda>x. snd x \<noteq> ?a) (entries st) \<and> heap ?st' = (heap st)(?a := None)"
    using rc by simp
  have rcC: "\<not> active c \<Longrightarrow> use c \<noteq> 1 \<Longrightarrow>
      entries ?st' = entries st \<and> heap ?st' = (heap st)(?a \<mapsto> c\<lparr>use := use c - 1\<rparr>)"
    using rc by simp
  have d: "distinct (map fst (entries st))" using ix by (simp add: indexed_with_def)
  define pI where "pI = ((Inode_key (inode c0), ?a) \<in> set rest)"
  define pT where "pT = ((Tuple_key (tuple c0), ?a) \<in> set rest)"
  define eI where "eI = (e = (Inode_key (inode c0), ?a))"
  define eT where "eT = (e = (Tuple_key (tuple c0), ?a))"
  have mem: "((Inode_key (inode c0), ?a) \<in> set (e # rest)) = (eI \<or> pI)"
    "((Tuple_key (tuple c0), ?a) \<in> set (e # rest)) = (eT \<or> pT)"
    by (auto simp: pI_def pT_def eI_def eT_def)
  have kk: "(Inode_key (inode c0), ?a) \<noteq> (Tuple_key (tuple c0), ?a)" by simp
  have ee: "eI \<or> eT" "\<not> (eI \<and> eT)" "eI \<longrightarrow> \<not> pI" "eT \<longrightarrow> \<not> pT"
    unfolding pI_def pT_def eI_def eT_def using e_eq dr(1) kk by metis+
  define p where "p = (if eI then pT else pI)"
  have before: "if p then c = c0 else active c0 \<and> c = c0\<lparr>active := False\<rparr>"
  proof (cases eI)
    case True
    with ee have "\<not> pI" "\<not> eT" by auto
    with True ca show ?thesis
      by (simp only: aging_inv_def c0(1) option.case mem p_def) (simp split: if_splits)
  next
    case False
    with ee have "eT" "\<not> pT" by auto
    with False ca show ?thesis
      by (simp only: aging_inv_def c0(1) option.case mem p_def) (simp split: if_splits)
  qed
  have after: "\<And>c'. (if p then active c0 \<and> c' = c0\<lparr>active := False\<rparr>
       else active c0 \<and> use c0 = 2 \<and> c' = c0\<lparr>active := False, use := 1\<rparr>) \<Longrightarrow> aging_inv rest st0 ?a c'"
  proof (cases eI)
    case True
    with ee have np: "\<not> pI" by auto
    fix c' assume "if p then active c0 \<and> c' = c0\<lparr>active := False\<rparr>
       else active c0 \<and> use c0 = 2 \<and> c' = c0\<lparr>active := False, use := 1\<rparr>"
    with True np c0(4) show "aging_inv rest st0 ?a c'"
      by (simp add: aging_inv_def c0(1) pI_def [symmetric] pT_def [symmetric] p_def split: if_splits)
  next
    case False
    with ee have np: "\<not> pT" by auto
    fix c' assume "if p then active c0 \<and> c' = c0\<lparr>active := False\<rparr>
       else active c0 \<and> use c0 = 2 \<and> c' = c0\<lparr>active := False, use := 1\<rparr>"
    with False np c0(4) show "aging_inv rest st0 ?a c'"
      by (simp add: aging_inv_def c0(1) pI_def [symmetric] pT_def [symmetric] p_def split: if_splits)
  qed
  have u0: "use c0 = 2 \<and> active c0 \<or> use c0 = 1" using c0(4) by (simp add: use_ok_def)
  have removal: "\<not> active c \<Longrightarrow> use c = 1 \<Longrightarrow> use c0 = 1"
    using before by (cases p) auto
  have keep: "\<not> (\<not> active c \<and> use c = 1) \<Longrightarrow>
      \<exists>c'. heap ?st' = (heap st)(?a \<mapsto> c') \<and> entries ?st' = entries st \<and>
           inode c' = inode c \<and> tuple c' = tuple c \<and> aging_inv rest st0 ?a c'"
  proof -
    assume nr: "\<not> (\<not> active c \<and> use c = 1)"
    show ?thesis
    proof (cases "active c")
      case True
      have "aging_inv rest st0 ?a (c\<lparr>active := False\<rparr>)"
        using before True by (intro after) (cases p; simp)
      with rcA [OF True] show ?thesis
        by (intro exI [of _ "c\<lparr>active := False\<rparr>"]) simp
    next
      case False
      with nr have u: "use c \<noteq> 1" by simp
      have "aging_inv rest st0 ?a (c\<lparr>use := use c - 1\<rparr>)"
        using before False u u0 by (intro after) (cases p; auto)
      with rcC [OF False u] show ?thesis
        by (intro exI [of _ "c\<lparr>use := use c - 1\<rparr>"]) simp
    qed
  qed
  have ents: "set (entries ?st') \<subseteq> set (entries st)"
    using rcA rcB rcC by (cases "active c"; cases "use c = 1") auto
  have other_heap: "\<And>b. b \<noteq> ?a \<Longrightarrow> heap ?st' b = heap st b"
    using rcA rcB rcC by (cases "active c"; cases "use c = 1") auto
  have other_ent: "\<And>x. x \<in> set (entries st) \<Longrightarrow> snd x \<noteq> ?a \<Longrightarrow> x \<in> set (entries ?st')"
    using rcA rcB rcC by (cases "active c"; cases "use c = 1") auto
  have dist': "distinct (map fst (entries ?st'))"
    using rcA rcB rcC d by (cases "active c"; cases "use c = 1") (auto simp: distinct_map_fst_filter)
  have ix': "indexed_with (aging_inv rest st0) ?st'"
    unfolding indexed_with_def
  proof (intro conjI ballI)
    show "ht_connections ?st' \<noteq> None" by (rule rc0)
    show "distinct (map fst (entries ?st'))" by (rule dist')
    have "kinds_apart (entries st)" using ix by (simp add: indexed_with_def)
    then show "kinds_apart (entries ?st')" using ents by (rule kinds_apart_subset)
    fix x assume x': "x \<in> set (entries ?st')"
    with ents have x: "x \<in> set (entries st)" by blast
    from indexed_withD [OF ix x] obtain dd where dd: "heap st (snd x) = Some dd"
      "fst x = Inode_key (inode dd) \<or> fst x = Tuple_key (tuple dd)"
      "(Inode_key (inode dd), snd x) \<in> set (entries st)"
      "(Tuple_key (tuple dd), snd x) \<in> set (entries st)"
      "snd x < next_addr st" "aging_inv (e # rest) st0 (snd x) dd" by blast
    show "entry_ok (aging_inv rest st0) ?st' x"
    proof (cases "snd x = ?a")
      case False
      have "aging_inv rest st0 (snd x) dd"
        using dd(6) by (rule aging_inv_drop) (use False in auto)
      then show ?thesis
        using dd False other_heap [OF False] other_ent [OF dd(3)] other_ent [OF dd(4)] rc0(1)
        by (simp add: entry_ok_def)
    next
      case True
      have nr: "\<not> (\<not> active c \<and> use c = 1)"
      proof
        assume "\<not> active c \<and> use c = 1"
        with rcB have "entries ?st' = filter (\<lambda>x. snd x \<noteq> ?a) (entries st)" by simp
        with x' True show False by simp
      qed
      from keep [OF nr] obtain c' where c': "heap ?st' = (heap st)(?a \<mapsto> c')"
        "entries ?st' = entries st" "inode c' = inode c" "tuple c' = tuple c"
        "aging_inv rest st0 ?a c'" by blast
      have "dd = c" using dd(1) c True by simp
      then show ?thesis using c' dd True rc0(1) by (simp add: entry_ok_def)
    qed
  qed
  have surv': "\<And>x cx. x \<in> set (entries st0) \<Longrightarrow> heap st0 (snd x) = Some cx \<Longrightarrow> use cx = 2
                 \<Longrightarrow> x \<in> set (entries ?st')"
  proof -
    fix x cx assume x: "x \<in> set (entries st0)" "heap st0 (snd x) = Some cx" "use cx = 2"
    then have xs: "x \<in> set (entries st)" by (rule surv)
    show "x \<in> set (entries ?st')"
    proof (cases "snd x = ?a")
      case False
      with xs show ?thesis by (rule other_ent)
    next
      case True
      with x c0(1) have "use c0 = 2" by simp
      with removal have "\<not> (\<not> active c \<and> use c = 1)" by auto
      from keep [OF this] xs show ?thesis by auto
    qed
  qed
  show ?thesis
    unfolding aging_state_def
    using ix' dr(2) ents sub surv' rc0 na fl by auto
qed

lemma aging_step:
  assumes "aging_state (e # rest) st0 st"
  shows "aging_state rest st0 (if e \<in> set (entries st) then remove_dead_conn (snd e) st else st)"
  using assms aging_step_skip aging_step_visit by simp

lemma aging_loop:
  "aging_state rest st0 st \<Longrightarrow> aging_state [] st0 (hashtable_foreach_from remove_dead_conn rest st)"
proof (induction rest arbitrary: st)
  case Nil
  then show ?case by simp
next
  case (Cons e rest)
  from aging_step [OF Cons.prems] Cons.IH show ?case by simp
qed

lemma aging_start:
  assumes "dual_indexed st"
  shows "aging_state (entries st) st st"
proof -
  from assms have ix: "indexed_with use_ok st" by (simp add: dual_indexed_def)
  have "indexed_with (aging_inv (entries st) st) st"
    unfolding indexed_with_def
  proof (intro conjI ballI)
    show "ht_connections st \<noteq> None" "distinct (map fst (entries st))" "kinds_apart (entries st)"
      using ix by (simp_all add: indexed_with_def)
    fix x assume x: "x \<in> set (entries st)"
    from indexed_withD [OF ix x] obtain dd where dd: "heap st (snd x) = Some dd"
      "fst x = Inode_key (inode dd) \<or> fst x = Tuple_key (tuple dd)"
      "(Inode_key (inode dd), snd x) \<in> set (entries st)"
      "(Tuple_key (tuple dd), snd x) \<in> set (entries st)"
      "snd x < next_addr st" "use_ok (snd x) dd" by blast
    then show "entry_ok (aging_inv (entries st) st) st x"
      by (simp add: entry_ok_def aging_inv_def)
  qed
  moreover have "distinct (entries st)"
    using ix by (simp add: indexed_with_def distinct_map)
  ultimately show ?thesis by (simp add: aging_state_def)
qed

lemma aging_pass:
  assumes di: "dual_indexed st"
  shows "indexed_with (\<lambda>a c. use c = 1 \<and> \<not> active c) (hashtable_foreach remove_dead_conn st)"
    and "set (entries (hashtable_foreach remove_dead_conn st)) \<subseteq> set (entries st)"
    and "\<And>x. x \<in> set (entries (hashtable_foreach remove_dead_conn st)) \<Longrightarrow>
           \<exists>c0. heap st (snd x) = Some c0 \<and> use c0 = 2 \<and> active c0 \<and>
                heap (hashtable_foreach remove_dead_conn st) (snd x) = Some (c0\<lparr>active := False, use := 1\<rparr>)"
    and "\<And>x c0. x \<in> set (entries st) \<Longrightarrow> heap st (snd x) = Some c0 \<Longrightarrow> use c0 = 2 \<Longrightarrow>
           x \<in> set (entries (hashtable_foreach remove_dead_conn st))"
    and "next_addr (hashtable_foreach remove_dead_conn st) = next_addr st"
    and "faults (hashtable_foreach remove_dead_conn st) = faults st"
proof -
  let ?st' = "hashtable_foreach remove_dead_conn st"
  from di obtain es where es: "ht_connections st = Some es" "entries st = es"
    by (auto simp: dual_indexed_def indexed_with_def entries_def)
  then have eq: "?st' = hashtable_foreach_from remove_dead_conn (entries st) st"
    by (simp add: hashtable_foreach_def)
  have J: "aging_state [] st ?st'"
    unfolding eq using aging_start [OF di] by (rule aging_loop)
  then have ix: "indexed_with (aging_inv [] st) ?st'" by (simp add: aging_state_def)
  have inv: "\<And>a c. aging_inv [] st a c \<Longrightarrow>
      \<exists>c0. heap st a = Some c0 \<and> use c0 = 2 \<and> active c0 \<and> c = c0\<lparr>active := False, use := 1\<rparr>"
    by (auto simp: aging_inv_def split: option.splits)
  show "indexed_with (\<lambda>a c. use c = 1 \<and> \<not> active c) ?st'"
    using ix by (rule indexed_with_mono) (use inv in fastforce)
  show "set (entries ?st') \<subseteq> set (entries st)" using J by (simp add: aging_state_def)
  show "\<And>x. x \<in> set (entries ?st') \<Longrightarrow>
           \<exists>c0. heap st (snd x) = Some c0 \<and> use c0 = 2 \<and> active c0 \<and>
                heap ?st' (snd x) = Some (c0\<lparr>active := False, use := 1\<rparr>)"
  proof -
    fix x assume x: "x \<in> set (entries ?st')"
    from indexed_withD [OF ix x] obtain c where "heap ?st' (snd x) = Some c" "aging_inv [] st (snd x) c"
      by blast
    with inv show "\<exists>c0. heap st (snd x) = Some c0 \<and> use c0 = 2 \<and> active c0 \<and>
                heap ?st' (snd x) = Some (c0\<lparr>active := False, use := 1\<rparr>)" by fastforce
  qed
  show "\<And>x c0. x \<in> set (entries st) \<Longrightarrow> heap st (snd x) = Some c0 \<Longrightarrow> use c0 = 2 \<Longrightarrow>
           x \<in> set (entries ?st')"
    using J by (simp add: aging_state_def)
  show "next_addr ?st' = next_addr st" "faults ?st' = faults st"
    using J by (simp_all add: aging_state_def)
qed

lemma aging_pass_dual_indexed:
  "dual_indexed st \<Longrightarrow> dual_indexed (hashtable_foreach remove_dead_conn st)"
  unfolding dual_indexed_def [of "hashtable_foreach remove_dead_conn st"]
  by (rule indexed_with_mono [OF aging_pass(1)]) (simp_all add: use_ok_def)

lemma connection_update_scan:
  "connection_update fs proto st =
     (case scan_files fs proto st of
        (False, s) \<Rightarrow> (False, s)
      | (True, s) \<Rightarrow> (True, hashtable_foreach remove_dead_conn s))"
  by (simp add: connection_update_def scan_files_def split: prod.splits bool.splits)

subsection \<open>A whole update\<close>

lemma read_lines_dual_indexed:
  "dual_indexed st \<Longrightarrow> lines_clash_free protocol ls st \<Longrightarrow> dual_indexed (snd (read_lines protocol ls st))"
proof (induction ls arbitrary: st)
  case Nil
  then show ?case by simp
next
  case (Cons l ls)
  obtain ok st' where pl: "process_line protocol l st = (ok, st')" by (cases "process_line protocol l st")
  have d': "dual_indexed st'"
    using process_line_dual_indexed [of st protocol l] Cons.prems pl by simp
  show ?case
  proof (cases ok)
    case True
    with Cons.prems pl have "lines_clash_free protocol ls st'" by simp
    with Cons.IH d' pl True show ?thesis by simp
  next
    case False
    with d' pl show ?thesis by simp
  qed
qed

lemma file_dual_indexed:
  "dual_indexed st \<Longrightarrow> file_clash_free fs path protocol st \<Longrightarrow>
     dual_indexed (snd (connection_update_' fs path protocol st))"
  by (auto simp: connection_update_'_def file_clash_free_def read_lines_dual_indexed
      split: option.splits list.splits)

lemma scan_dual_indexed:
  assumes "dual_indexed st" "update_clash_free fs proto st"
  shows "dual_indexed (snd (scan_files fs proto st))"
proof -
  obtain ok1 st1 where t: "(if TCP \<in> proto then connection_update_' fs PATH_TCP IPPROTO_TCP st else (True, st)) = (ok1, st1)"
    by (cases "if TCP \<in> proto then connection_update_' fs PATH_TCP IPPROTO_TCP st else (True, st)")
  have d1: "dual_indexed st1"
  proof (cases "TCP \<in> proto")
    case True
    with assms have "dual_indexed (snd (connection_update_' fs PATH_TCP IPPROTO_TCP st))"
      by (intro file_dual_indexed) (simp_all add: update_clash_free_def)
    with True t show ?thesis by simp
  next
    case False
    with t assms(1) show ?thesis by simp
  qed
  show ?thesis
  proof (cases "ok1 \<and> UDP \<in> proto")
    case True
    with assms(2) t have "file_clash_free fs PATH_UDP IPPROTO_UDP st1"
      by (simp add: update_clash_free_def)
    with d1 have "dual_indexed (snd (connection_update_' fs PATH_UDP IPPROTO_UDP st1))"
      by (rule file_dual_indexed)
    with True t show ?thesis by (simp add: scan_files_def)
  next
    case False
    with d1 t show ?thesis by (cases ok1) (auto simp: scan_files_def)
  qed
qed

lemma update_dual_indexed:
  assumes "dual_indexed st" "update_clash_free fs proto st"
  shows "dual_indexed (snd (connection_update fs proto st))"
proof -
  from scan_dual_indexed [OF assms] have "dual_indexed (snd (scan_files fs proto st))" .
  then show ?thesis
    by (auto simp: connection_update_scan aging_pass_dual_indexed split: prod.splits bool.splits)
qed

lemmas scan_defs = parse_line_def scan_dec_def scan_hex_def scan_set9_def match_char_def skip_ws_def
     scan_sign_def to_ulong_def digits_val_def digit_val_def is_hex_digit_def is_dec_digit_def isspace_c_def

lemmas conn_defs = connection_update_def connection_update_'_def process_line_def
  connection_get_by_inode_def connection_get_by_tuple_def connection_insert_def
  connection_insert_by_inode_def connection_insert_by_tuple_def connection_remove_def
  connection_remove_by_inode_def connection_remove_by_tuple_def remove_dead_conn_def
  create_new_conn_def with_conn_def ht_get_def ht_set_def ht_remove_def ht_cb_free_def c_free_def
  hashtable_foreach_def hashtable_destroy_def connection_free_def connection_init_def entries_def
  ht_cb_compare_def read_ulong_def memcmp_tuple_def tuple_head_def word_cat_eq
  KEY_INODE_def KEY_TUPLE_def TCP_TIME_WAIT_def TCP_LISTEN_def
  IPPROTO_TCP_def IPPROTO_UDP_def PATH_TCP_def PATH_UDP_def start_state_def

subsection \<open>The sample lines\<close>

lemma parse_20911: "parse_line line_20911 = Some \<lparr> cl_local_addr = ''3500007F'', cl_local_port = 0x35,
              cl_rem_addr = ''00000000'', cl_rem_port = 0, cl_state = 1, cl_inode = 20911 \<rparr>"
  by (simp add: line_20911_def scan_defs)

lemma parse_44385: "parse_line line_44385 = Some \<lparr> cl_local_addr = ''0100007F'', cl_local_port = 0x277,
              cl_rem_addr = ''0200007F'', cl_rem_port = 0x1733, cl_state = 1, cl_inode = 44385 \<rparr>"
  by (simp add: line_44385_def scan_defs)

lemma parse_listen: "parse_line line_listen = Some \<lparr> cl_local_addr = ''0100007F'', cl_local_port = 0x1733,
              cl_rem_addr = ''00000000'', cl_rem_port = 0, cl_state = 10, cl_inode = 27996 \<rparr>"
  by (simp add: line_listen_def scan_defs)

lemma parse_reused: "parse_line line_reused = Some \<lparr> cl_local_addr = ''0100007F'', cl_local_port = 0x1F90,
              cl_rem_addr = ''0300007F'', cl_rem_port = 0xC350, cl_state = 1, cl_inode = 20911 \<rparr>"
  by (simp add: line_reused_def scan_defs)

lemma parse_tcp6: "parse_line line_tcp6 = None"
  by (simp add: line_tcp6_def scan_defs)

lemma parse_garbage: "parse_line ''garbage'' = None"
  by (simp add: scan_defs)

lemmas eval_defs = conn_defs tcp_file_def parse_20911 parse_44385 parse_listen parse_reused parse_tcp6
  parse_garbage scan_hex_def skip_ws_def scan_sign_def to_ulong_def digits_val_def digit_val_def
  is_hex_digit_def isspace_c_def

text \<open>
  C7, as stated, fails: the result of a lookup in the hash index depends on the value the
  process-wide variable \<open>key_type\<close> has when the call is made. On the table holding the
  connection of the first sample line, the same \<open>get\<close> with the same key finds the record
  when \<open>key_type\<close> is \<open>KEY_INODE\<close> and finds nothing when it still has its initial value
  0: the comparison callback returns 0 for every pair of keys then.
\<close>

theorem key_type_is_ambient:
  "ht_get (Inode_key 20911) ((snd (read_lines IPPROTO_TCP [line_20911] init_state))\<lparr>key_type := KEY_INODE\<rparr>) = Some 0 \<and>
   ht_get (Inode_key 20911) ((snd (read_lines IPPROTO_TCP [line_20911] init_state))\<lparr>key_type := 0\<rparr>) = None \<and>
   ht_cb_compare KEY_INODE (Inode_key 20911) (Inode_key 20911) \<and>
   \<not> ht_cb_compare 0 (Inode_key 20911) (Inode_key 20911)"
  by (simp add: init_state_def eval_defs)

text \<open>
  C3. The reference count of a record is also decremented by the aging pass, so a record
  can be left with one reference while the table still holds two entries for it. After an
  update that lists the first sample connection and one that lists the second,
  \<open>connection_free\<close> frees the remaining record at its first entry and then touches it
  again through its second entry: a use after free.
\<close>

theorem refcount_use_after_free:
  "faults (connection_free
     (snd (connection_update (tcp_file [line_44385]) {TCP}
        (snd (connection_update (tcp_file [line_20911]) {TCP} init_state))))) = [Use_after_free 1]"
  by (simp add: init_state_def eval_defs)

text \<open>
  C2. Scenario S5 of the specification on the code: inode 20911 is listed first with one
  tuple, then with another. The second update only finds the inode and marks the old
  record active; no record with the new tuple is created, and a lookup of the new tuple
  returns nothing.
\<close>

theorem inode_reuse_not_detected:
  "fst (connection_get_by_tuple
          \<lparr>l3_local_ip = 0x0100007F, l3_remote_ip = 0x0300007F, l4_local_port = 0x1F90,
           l4_remote_port = 0xC350, l4_protocol = 6\<rparr>
          (snd (connection_update (tcp_file [line_reused]) {TCP}
             (snd (connection_update (tcp_file [line_20911]) {TCP} init_state))))) = None \<and>
   read_lines IPPROTO_TCP [line_reused] (snd (read_lines IPPROTO_TCP [line_20911] init_state)) =
     (True, (snd (read_lines IPPROTO_TCP [line_20911] init_state))\<lparr>key_type := KEY_INODE\<rparr>)"
  by (simp add: init_state_def eval_defs)

lemma hashtable_set_key: "x \<in> fst ` set es \<Longrightarrow> x \<in> fst ` set (hashtable_set cmp es k v)"
proof (induction es)
  case Nil
  then show ?case by simp
next
  case (Cons e es)
  obtain k' v' where e: "e = (k', v')" by (cases e)
  show ?case
  proof (cases "cmp k' k")
    case True
    with Cons.prems e show ?thesis by auto
  next
    case False
    with Cons e show ?thesis by auto
  qed
qed

lemma entries_faults [simp]: "entries (st\<lparr>faults := f\<rparr>) = entries st"
  by (simp add: entries_def)

lemma ht_set_key: "x \<in> fst ` set (entries st) \<Longrightarrow> x \<in> fst ` set (entries (ht_set k v st))"
  by (cases "ht_connections st") (simp_all add: ht_set_def entries_def hashtable_set_key)

lemma insert_by_inode_key:
  "x \<in> fst ` set (entries st) \<Longrightarrow> x \<in> fst ` set (entries (connection_insert_by_inode a st))"
  using ht_set_key [of x "st\<lparr>key_type := KEY_INODE\<rparr>"]
  by (cases "heap st a") (simp_all add: connection_insert_by_inode_def with_conn_def)

lemma insert_by_tuple_key:
  "x \<in> fst ` set (entries st) \<Longrightarrow> x \<in> fst ` set (entries (connection_insert_by_tuple a st))"
  using ht_set_key [of x "st\<lparr>key_type := KEY_TUPLE\<rparr>"]
  by (cases "heap st a") (simp_all add: connection_insert_by_tuple_def with_conn_def)

lemma connection_insert_keys:
  "fst ` set (entries st) \<subseteq> fst ` set (entries (connection_insert a st))"
proof
  fix x assume x: "x \<in> fst ` set (entries st)"
  have "entries (with_conn a (\<lambda>c s. s\<lparr>heap := (heap s)(a \<mapsto> c\<lparr>use := 2\<rparr>)\<rparr>) st) = entries st"
    by (cases "heap st a") (simp_all add: with_conn_def)
  with x show "x \<in> fst ` set (entries (connection_insert a st))"
    unfolding connection_insert_def by (intro insert_by_tuple_key insert_by_inode_key) simp
qed

lemma connection_insert_table:
  "ht_connections st \<noteq> None \<Longrightarrow> ht_connections (connection_insert a st) \<noteq> None"
  by (auto simp: connection_insert_def connection_insert_by_inode_def connection_insert_by_tuple_def
      with_conn_def ht_set_def split: option.splits)

lemma process_line_keys:
  "fst ` set (entries st) \<subseteq> fst ` set (entries (snd (process_line protocol l st)))"
proof (cases "parse_line l")
  case None
  then show ?thesis by (simp add: process_line_malformed)
next
  case (Some p)
  show ?thesis
  proof (cases "line_accepted p")
    case False
    with Some show ?thesis by (simp add: process_line_skip)
  next
    case True
    show ?thesis
    proof (cases "ht_get (Inode_key (cl_inode p)) (st\<lparr>key_type := KEY_INODE\<rparr>)")
      case (Some a)
      with \<open>parse_line l = Some p\<close> True show ?thesis
        by (auto simp: process_line_def line_accepted_def connection_get_by_inode_def with_conn_def
            entries_def split: option.splits)
    next
      case None
      let ?st1 = "snd (create_new_conn (cl_inode p) (cl_local_addr p) (cl_rem_addr p) (cl_local_port p)
           (cl_rem_port p) (cl_state p) protocol (st\<lparr>key_type := KEY_INODE\<rparr>))"
      have e: "entries ?st1 = entries st"
        by (simp add: create_new_conn_parsed [OF \<open>parse_line l = Some p\<close>])
      have "snd (process_line protocol l st) = connection_insert (next_addr st) ?st1"
        using \<open>parse_line l = Some p\<close> True None
        by (simp add: process_line_def line_accepted_def connection_get_by_inode_def
            create_new_conn_parsed [OF \<open>parse_line l = Some p\<close>])
      then show ?thesis using connection_insert_keys [of ?st1 "next_addr st"] e by simp
    qed
  qed
qed

lemma process_line_table:
  "ht_connections st \<noteq> None \<Longrightarrow> ht_connections (snd (process_line protocol l st)) \<noteq> None"
proof (cases "parse_line l")
  case None
  assume "ht_connections st \<noteq> None"
  with None show ?thesis by (simp add: process_line_malformed)
next
  case (Some p)
  assume h: "ht_connections st \<noteq> None"
  show ?thesis
  proof (cases "line_accepted p")
    case False
    with Some h show ?thesis by (simp add: process_line_skip)
  next
    case True
    show ?thesis
    proof (cases "ht_get (Inode_key (cl_inode p)) (st\<lparr>key_type := KEY_INODE\<rparr>)")
      case (Some a)
      with \<open>parse_line l = Some p\<close> True h show ?thesis
        by (auto simp: process_line_def line_accepted_def connection_get_by_inode_def with_conn_def
            split: option.splits)
    next
      case None
      with \<open>parse_line l = Some p\<close> True h show ?thesis
        by (simp add: process_line_def line_accepted_def connection_get_by_inode_def
            create_new_conn_parsed [OF \<open>parse_line l = Some p\<close>] connection_insert_table)
    qed
  qed
qed

lemma get_by_inode_found:
  "(fst (connection_get_by_inode i st) \<noteq> None) =
     (\<exists>k \<in> fst ` set (entries st). ht_cb_compare KEY_INODE k (Inode_key i))"
  by (simp add: connection_get_by_inode_def ht_get_def hashtable_get_None)

lemma process_line_found:
  assumes "ht_connections st \<noteq> None" "parse_line l = Some p" "line_accepted p"
  shows "\<exists>k \<in> fst ` set (entries (snd (process_line protocol l st))).
           ht_cb_compare KEY_INODE k (Inode_key (cl_inode p))"
proof (cases "fst (connection_get_by_inode (cl_inode p) st) = None")
  case False
  then have "\<exists>k \<in> fst ` set (entries st). ht_cb_compare KEY_INODE k (Inode_key (cl_inode p))"
    by (simp only: get_by_inode_found)
  then obtain k where k: "k \<in> fst ` set (entries st)" "ht_cb_compare KEY_INODE k (Inode_key (cl_inode p))"
    by blast
  from k(1) have "k \<in> fst ` set (entries (snd (process_line protocol l st)))"
    using process_line_keys by blast
  with k(2) show ?thesis by blast
next
  case True
  from assms(1) obtain es where es: "ht_connections st = Some es" by auto
  have None: "ht_get (Inode_key (cl_inode p)) (st\<lparr>key_type := KEY_INODE\<rparr>) = None"
    using True by (simp add: connection_get_by_inode_def)
  then have nm: "\<forall>k' \<in> fst ` set es. \<not> ht_cb_compare KEY_INODE k' (Inode_key (cl_inode p))"
    using es by (simp add: ht_get_def hashtable_get_None entries_def)
  let ?n = "next_addr st"
  let ?st1 = "st\<lparr>key_type := KEY_INODE,
      heap := (heap st)(?n \<mapsto> (line_conn protocol p)\<lparr>use := 0\<rparr>), next_addr := Suc ?n\<rparr>"
  let ?st2 = "with_conn ?n (\<lambda>c s. s\<lparr>heap := (heap s)(?n \<mapsto> c\<lparr>use := 2\<rparr>)\<rparr>) ?st1"
  have pl: "snd (process_line protocol l st) = connection_insert ?n ?st1"
    using assms(2,3) None
    by (simp add: process_line_def line_accepted_def connection_get_by_inode_def
        create_new_conn_parsed [OF assms(2)])
  have hs: "hashtable_set (ht_cb_compare KEY_INODE) es (Inode_key (cl_inode p)) ?n =
              es @ [(Inode_key (cl_inode p), ?n)]"
    using nm by (rule hashtable_set_append)
  have "Inode_key (cl_inode p) \<in> fst ` set (entries (connection_insert_by_inode ?n ?st2))"
    using es hs
    by (simp add: connection_insert_by_inode_def with_conn_def ht_set_def entries_def line_conn_def)
  then have "Inode_key (cl_inode p) \<in> fst ` set (entries (snd (process_line protocol l st)))"
    unfolding pl connection_insert_def by (rule insert_by_tuple_key)
  moreover have "ht_cb_compare KEY_INODE (Inode_key (cl_inode p)) (Inode_key (cl_inode p))" by simp
  ultimately show ?thesis by blast
qed

lemma read_lines_append:
  "read_lines protocol (xs @ ys) st =
     (case read_lines protocol xs st of
        (True, s) \<Rightarrow> read_lines protocol ys s
      | (False, s) \<Rightarrow> (False, s))"
  by (induction xs arbitrary: st) (auto split: prod.splits bool.splits)

lemma read_lines_keys:
  "fst ` set (entries st) \<subseteq> fst ` set (entries (snd (read_lines protocol ls st)))"
proof (induction ls arbitrary: st)
  case Nil
  then show ?case by simp
next
  case (Cons l ls)
  obtain ok st' where pl: "process_line protocol l st = (ok, st')" by (cases "process_line protocol l st")
  have "fst ` set (entries st) \<subseteq> fst ` set (entries st')"
    using process_line_keys [of st protocol l] pl by simp
  with Cons.IH [of st'] pl show ?case by (cases ok) auto
qed

lemma read_lines_table:
  "ht_connections st \<noteq> None \<Longrightarrow> ht_connections (snd (read_lines protocol ls st)) \<noteq> None"
proof (induction ls arbitrary: st)
  case Nil
  then show ?case by simp
next
  case (Cons l ls)
  obtain ok st' where pl: "process_line protocol l st = (ok, st')" by (cases "process_line protocol l st")
  have "ht_connections st' \<noteq> None"
    using process_line_table [OF Cons.prems, of protocol l] pl by simp
  with Cons.IH [of st'] pl show ?case by (cases ok) auto
qed

lemma read_lines_found:
  assumes "ht_connections st \<noteq> None" "read_lines protocol ls st = (True, st')"
    and "l \<in> set ls" "parse_line l = Some p" "line_accepted p"
  shows "\<exists>k \<in> fst ` set (entries st'). ht_cb_compare KEY_INODE k (Inode_key (cl_inode p))"
  using assms(1,2,3)
proof (induction ls arbitrary: st)
  case Nil
  then show ?case by simp
next
  case (Cons x ls)
  obtain ok s where pl: "process_line protocol x st = (ok, s)" by (cases "process_line protocol x st")
  with Cons.prems(2) have ok: "ok" and rl: "read_lines protocol ls s = (True, st')"
    by (auto split: bool.splits)
  have tb: "ht_connections s \<noteq> None"
    using process_line_table [OF Cons.prems(1), of protocol x] pl by simp
  show ?case
  proof (cases "l = x")
    case True
    have "\<exists>k \<in> fst ` set (entries s). ht_cb_compare KEY_INODE k (Inode_key (cl_inode p))"
      using process_line_found [OF Cons.prems(1) assms(4,5), of protocol] pl True by simp
    moreover have "fst ` set (entries s) \<subseteq> fst ` set (entries st')"
      using read_lines_keys [of s protocol ls] rl by simp
    ultimately show ?thesis by blast
  next
    case False
    with Cons.prems(3) have "l \<in> set ls" by simp
    with Cons.IH [OF tb rl] show ?thesis .
  qed
qed

text \<open>
  C5. When a line of a file that \<open>connection_update\<close> reads does not parse, the update
  returns an error and the state is the one reached after the lines before it: the aging
  pass has not run, every accepted line before the malformed one is found by its inode, and
  no key that was in the table has left it. The file is the TCP file when TCP is requested,
  or the UDP file when UDP is requested and the TCP file, if requested, was read without
  error.
\<close>

theorem malformed_line_aborts_update:
  assumes bad: "parse_line bad = None"
    and pre: "read_lines protocol pre st = (True, st1)"
    and fl: "fs path_file = Some (header # pre @ bad # post)"
    and tbl: "ht_connections st \<noteq> None"
    and which: "(TCP \<in> proto \<and> path_file = PATH_TCP \<and> protocol = IPPROTO_TCP \<and> st = st0) \<or>
         (UDP \<in> proto \<and> path_file = PATH_UDP \<and> protocol = IPPROTO_UDP \<and>
            (if TCP \<in> proto then connection_update_' fs PATH_TCP IPPROTO_TCP st0 = (True, st)
             else st = st0))"
  shows "connection_update fs proto st0 = (False, st1) \<and>
         (\<forall>l \<in> set pre. \<forall>p. parse_line l = Some p \<longrightarrow> line_accepted p \<longrightarrow>
             fst (connection_get_by_inode (cl_inode p) st1) \<noteq> None) \<and>
         fst ` set (entries st) \<subseteq> fst ` set (entries st1)"
proof -
  have "process_line protocol bad st1 = (False, st1)" using bad by (rule process_line_malformed)
  then have "read_lines protocol (pre @ bad # post) st = (False, st1)"
    using pre by (simp add: read_lines_append)
  then have f: "connection_update_' fs path_file protocol st = (False, st1)"
    using fl by (simp add: connection_update_'_def)
  have u: "connection_update fs proto st0 = (False, st1)"
    using which f by (auto simp: connection_update_def split: if_splits)
  have k: "fst ` set (entries st) \<subseteq> fst ` set (entries st1)"
    using read_lines_keys [of st protocol pre] pre by simp
  have "\<And>l p. l \<in> set pre \<Longrightarrow> parse_line l = Some p \<Longrightarrow> line_accepted p \<Longrightarrow>
             fst (connection_get_by_inode (cl_inode p) st1) \<noteq> None"
    using read_lines_found [OF tbl pre] by (simp only: get_by_inode_found)
  with u k show ?thesis by blast
qed

text \<open>A file whose second line is malformed: the first line's connection stays, the
  third line is never read.\<close>

theorem malformed_line_aborts_update_witness:
  "connection_update (tcp_file [line_20911, ''garbage'', line_44385]) {TCP} init_state =
     (False, snd (read_lines IPPROTO_TCP [line_20911] init_state)) \<and>
   fst (connection_get_by_inode 20911 (snd (read_lines IPPROTO_TCP [line_20911] init_state))) = Some 0 \<and>
   fst (connection_get_by_inode 44385 (snd (read_lines IPPROTO_TCP [line_20911] init_state))) = None"
  using malformed_line_aborts_update [of "''garbage''" IPPROTO_TCP "[line_20911]" init_state
      "snd (read_lines IPPROTO_TCP [line_20911] init_state)"
      "tcp_file [line_20911, ''garbage'', line_44385]" PATH_TCP tcp_header "[line_44385]" "{TCP}" init_state]
  by (simp add: init_state_def eval_defs)



subsection \<open>Where the entries of the table come from\<close>

lemma process_line_provenance:
  assumes di: "dual_indexed st" and nc: "\<not> tuple_clash protocol l st"
    and x: "x \<in> set (entries (snd (process_line protocol l st)))"
    and c: "heap (snd (process_line protocol l st)) (snd x) = Some c"
  shows "kept_from st x c \<or>
         (use c = 2 \<and> lines_list_inode [l] (inode c) \<and> lines_list_tuple protocol [l] (tuple c))"
proof (cases "parse_line l")
  case None
  with x c show ?thesis by (simp add: process_line_malformed kept_from_def)
next
  case (Some p)
  show ?thesis
  proof (cases "line_accepted p")
    case False
    with Some x c show ?thesis by (simp add: process_line_skip kept_from_def)
  next
    case True
    from di have ix: "indexed_with use_ok st" by (simp add: dual_indexed_def)
    then obtain es where es: "ht_connections st = Some es" "entries st = es"
      by (auto simp: indexed_with_def entries_def)
    show ?thesis
    proof (cases "map_of es (Inode_key (cl_inode p))")
      case (Some a)
      then have e: "(Inode_key (cl_inode p), a) \<in> set (entries st)"
        using es by (auto dest: map_of_SomeD)
      from indexed_withD [OF ix e] obtain c0 where c0: "heap st a = Some c0" by auto
      have pl: "process_line protocol l st =
           (True, st\<lparr>key_type := KEY_INODE, heap := (heap st)(a \<mapsto> c0\<lparr>active := True\<rparr>)\<rparr>)"
        using process_line_refresh [OF \<open>parse_line l = Some p\<close> True no_clash_inode [OF \<open>parse_line l = Some p\<close> True nc], of a c0] Some es c0
        by simp
      from x pl have xs: "x \<in> set (entries st)" by simp
      from indexed_withD [OF ix xs] obtain d where d: "heap st (snd x) = Some d" by auto
      show ?thesis
      proof (cases "snd x = a")
        case True
        with c pl c0 d xs show ?thesis by (auto simp: kept_from_def)
      next
        case False
        with c pl d xs show ?thesis by (auto simp: kept_from_def)
      qed
    next
      case None
      then have ni: "Inode_key (cl_inode p) \<notin> fst ` set es"
        by (simp add: map_of_eq_None_iff)
      note pl = process_line_insert_nc [OF \<open>parse_line l = Some p\<close> True es(1) ni nc]
      from x pl consider "x \<in> set es" | "snd x = next_addr st" by auto
      then show ?thesis
      proof cases
        case 1
        from indexed_withD [OF ix] 1 es obtain d where d: "heap st (snd x) = Some d"
          "snd x < next_addr st" by metis
        with c pl 1 es show ?thesis by (auto simp: kept_from_def)
      next
        case 2
        with c pl have "c = line_conn protocol p" by simp
        then show ?thesis
          using \<open>parse_line l = Some p\<close> True
          by (simp add: line_conn_def lines_list_inode_def lines_list_tuple_def)
      qed
    qed
  qed
qed

lemma lines_list_inode_Cons:
  "lines_list_inode [l] i \<or> lines_list_inode ls i \<Longrightarrow> lines_list_inode (l # ls) i"
  by (auto simp: lines_list_inode_def)

lemma lines_list_tuple_Cons:
  "lines_list_tuple pr [l] t \<or> lines_list_tuple pr ls t \<Longrightarrow> lines_list_tuple pr (l # ls) t"
  by (auto simp: lines_list_tuple_def)

lemma kept_from_trans:
  "kept_from s1 x c \<Longrightarrow> heap s1 (snd x) = Some c1 \<Longrightarrow> kept_from st x c1 \<Longrightarrow> kept_from st x c"
  by (auto simp: kept_from_def split: option.splits)

lemma read_lines_provenance:
  assumes "dual_indexed st" "lines_clash_free protocol ls st"
    and "x \<in> set (entries (snd (read_lines protocol ls st)))"
    and "heap (snd (read_lines protocol ls st)) (snd x) = Some c"
  shows "kept_from st x c \<or>
         (use c = 2 \<and> lines_list_inode ls (inode c) \<and> lines_list_tuple protocol ls (tuple c))"
  using assms
proof (induction ls arbitrary: st)
  case Nil
  then show ?case by (simp add: kept_from_def)
next
  case (Cons l ls)
  obtain ok s1 where pl: "process_line protocol l st = (ok, s1)" by (cases "process_line protocol l st")
  from Cons.prems(2) have nc: "\<not> tuple_clash protocol l st" by simp
  have d1: "dual_indexed s1"
    using process_line_dual_indexed [OF Cons.prems(1) nc] pl by simp
  note pp = process_line_provenance [OF Cons.prems(1) nc]
  show ?case
  proof (cases ok)
    case False
    with pl Cons.prems(3,4) have "x \<in> set (entries (snd (process_line protocol l st)))"
      "heap (snd (process_line protocol l st)) (snd x) = Some c" by simp_all
    from pp [OF this] show ?thesis
      using lines_list_inode_Cons lines_list_tuple_Cons by blast
  next
    case True
    with pl Cons.prems have cf: "lines_clash_free protocol ls s1"
      and x1: "x \<in> set (entries (snd (read_lines protocol ls s1)))"
      and c1: "heap (snd (read_lines protocol ls s1)) (snd x) = Some c" by simp_all
    from Cons.IH [OF d1 cf x1 c1] show ?thesis
    proof
      assume k: "kept_from s1 x c"
      then obtain cc where cc: "heap s1 (snd x) = Some cc" "x \<in> set (entries s1)"
        "use cc = use c" "inode cc = inode c" "tuple cc = tuple c"
        by (auto simp: kept_from_def split: option.splits)
      with pl have "x \<in> set (entries (snd (process_line protocol l st)))"
        "heap (snd (process_line protocol l st)) (snd x) = Some cc" by simp_all
      from pp [OF this] show ?thesis
      proof
        assume "kept_from st x cc"
        with k cc(1) show ?thesis by (blast intro: kept_from_trans)
      next
        assume "use cc = 2 \<and> lines_list_inode [l] (inode cc) \<and> lines_list_tuple protocol [l] (tuple cc)"
        with cc show ?thesis
          using lines_list_inode_Cons lines_list_tuple_Cons by metis
      qed
    next
      assume "use c = 2 \<and> lines_list_inode ls (inode c) \<and> lines_list_tuple protocol ls (tuple c)"
      then show ?thesis
        using lines_list_inode_Cons lines_list_tuple_Cons by blast
    qed
  qed
qed

lemma file_provenance:
  assumes "dual_indexed st" "file_clash_free fs path protocol st"
    and "x \<in> set (entries (snd (connection_update_' fs path protocol st)))"
    and "heap (snd (connection_update_' fs path protocol st)) (snd x) = Some c"
  shows "kept_from st x c \<or>
         (use c = 2 \<and> lines_list_inode (file_lines fs path) (inode c) \<and>
          lines_list_tuple protocol (file_lines fs path) (tuple c))"
proof (cases "fs path")
  case None
  with assms(3,4) show ?thesis by (simp add: connection_update_'_def kept_from_def)
next
  case (Some ls)
  show ?thesis
  proof (cases ls)
    case Nil
    with Some assms(3,4) show ?thesis by (simp add: connection_update_'_def kept_from_def)
  next
    case (Cons h rest)
    with Some assms have "lines_clash_free protocol rest st"
      "x \<in> set (entries (snd (read_lines protocol rest st)))"
      "heap (snd (read_lines protocol rest st)) (snd x) = Some c"
      by (simp_all add: connection_update_'_def file_clash_free_def)
    from read_lines_provenance [OF assms(1) this] Some Cons show ?thesis
      by (simp add: file_lines_def)
  qed
qed

lemma scan_provenance:
  assumes di: "dual_indexed st" and cf: "update_clash_free fs proto st"
    and x: "x \<in> set (entries (snd (scan_files fs proto st)))"
    and c: "heap (snd (scan_files fs proto st)) (snd x) = Some c"
  shows "kept_from st x c \<or>
         (use c = 2 \<and> snapshot_lists_inode fs proto (inode c) \<and> snapshot_lists_tuple fs proto (tuple c))"
proof -
  obtain ok1 st1 where t: "(if TCP \<in> proto then connection_update_' fs PATH_TCP IPPROTO_TCP st else (True, st)) = (ok1, st1)"
    by (cases "if TCP \<in> proto then connection_update_' fs PATH_TCP IPPROTO_TCP st else (True, st)")
  have d1: "dual_indexed st1"
  proof (cases "TCP \<in> proto")
    case True
    with di cf have "dual_indexed (snd (connection_update_' fs PATH_TCP IPPROTO_TCP st))"
      by (intro file_dual_indexed) (simp_all add: update_clash_free_def)
    with True t show ?thesis by simp
  next
    case False
    with t di show ?thesis by simp
  qed
  have p1: "\<And>y d. y \<in> set (entries st1) \<Longrightarrow> heap st1 (snd y) = Some d \<Longrightarrow>
      kept_from st y d \<or>
      (use d = 2 \<and> snapshot_lists_inode fs proto (inode d) \<and> snapshot_lists_tuple fs proto (tuple d))"
  proof -
    fix y d assume y: "y \<in> set (entries st1)" "heap st1 (snd y) = Some d"
    show "kept_from st y d \<or>
      (use d = 2 \<and> snapshot_lists_inode fs proto (inode d) \<and> snapshot_lists_tuple fs proto (tuple d))"
    proof (cases "TCP \<in> proto")
      case True
      with cf have "file_clash_free fs PATH_TCP IPPROTO_TCP st" by (simp add: update_clash_free_def)
      from file_provenance [OF di this, of y d] y t True show ?thesis
        by (auto simp: snapshot_lists_inode_def snapshot_lists_tuple_def)
    next
      case False
      with t y show ?thesis by (auto simp: kept_from_def)
    qed
  qed
  show ?thesis
  proof (cases "ok1 \<and> UDP \<in> proto")
    case False
    then have "snd (scan_files fs proto st) = st1"
      using t by (cases ok1) (auto simp: scan_files_def)
    with x c p1 show ?thesis by simp
  next
    case True
    then have s: "snd (scan_files fs proto st) = snd (connection_update_' fs PATH_UDP IPPROTO_UDP st1)"
      using t by (simp add: scan_files_def)
    from True cf t have "file_clash_free fs PATH_UDP IPPROTO_UDP st1"
      by (simp add: update_clash_free_def)
    from file_provenance [OF d1 this, of x c] x c s
    have "kept_from st1 x c \<or>
         (use c = 2 \<and> lines_list_inode (file_lines fs PATH_UDP) (inode c) \<and>
          lines_list_tuple IPPROTO_UDP (file_lines fs PATH_UDP) (tuple c))" by simp
    then show ?thesis
    proof
      assume k: "kept_from st1 x c"
      then obtain cc where cc: "heap st1 (snd x) = Some cc" "x \<in> set (entries st1)"
        "use cc = use c" "inode cc = inode c" "tuple cc = tuple c"
        by (auto simp: kept_from_def split: option.splits)
      from p1 [OF cc(2,1)] show ?thesis
      proof
        assume "kept_from st x cc"
        with k cc(1) show ?thesis by (blast intro: kept_from_trans)
      next
        assume "use cc = 2 \<and> snapshot_lists_inode fs proto (inode cc) \<and> snapshot_lists_tuple fs proto (tuple cc)"
        with cc show ?thesis by simp
      qed
    next
      assume "use c = 2 \<and> lines_list_inode (file_lines fs PATH_UDP) (inode c) \<and>
          lines_list_tuple IPPROTO_UDP (file_lines fs PATH_UDP) (tuple c)"
      with True show ?thesis by (simp add: snapshot_lists_inode_def snapshot_lists_tuple_def)
    qed
  qed
qed

subsection \<open>Inodes first listed in a snapshot\<close>

lemma process_line_forward:
  assumes di: "dual_indexed st" and nc: "\<not> tuple_clash protocol l st"
    and x: "x \<in> set (entries st)" and c0: "heap st (snd x) = Some c0"
  shows "x \<in> set (entries (snd (process_line protocol l st))) \<and>
         (\<exists>c. heap (snd (process_line protocol l st)) (snd x) = Some c \<and> use c = use c0)"
proof (cases "parse_line l")
  case None
  with x c0 show ?thesis by (simp add: process_line_malformed)
next
  case (Some p)
  show ?thesis
  proof (cases "line_accepted p")
    case False
    with Some x c0 show ?thesis by (simp add: process_line_skip)
  next
    case True
    from di have ix: "indexed_with use_ok st" by (simp add: dual_indexed_def)
    then obtain es where es: "ht_connections st = Some es" "entries st = es"
      by (auto simp: indexed_with_def entries_def)
    show ?thesis
    proof (cases "map_of es (Inode_key (cl_inode p))")
      case (Some a)
      then have e: "(Inode_key (cl_inode p), a) \<in> set (entries st)"
        using es by (auto dest: map_of_SomeD)
      from indexed_withD [OF ix e] obtain d where d: "heap st a = Some d" by auto
      have pl: "process_line protocol l st =
           (True, st\<lparr>key_type := KEY_INODE, heap := (heap st)(a \<mapsto> d\<lparr>active := True\<rparr>)\<rparr>)"
        using process_line_refresh [OF \<open>parse_line l = Some p\<close> True no_clash_inode [OF \<open>parse_line l = Some p\<close> True nc], of a d] Some es d
        by simp
      show ?thesis using x c0 d pl by (cases "snd x = a") auto
    next
      case None
      then have ni: "Inode_key (cl_inode p) \<notin> fst ` set es"
        by (simp add: map_of_eq_None_iff)
      note pl = process_line_insert_nc [OF \<open>parse_line l = Some p\<close> True es(1) ni nc]
      from indexed_withD [OF ix x] have "snd x < next_addr st" by auto
      with x c0 es show ?thesis by (simp add: pl)
    qed
  qed
qed

lemma has_new_process_line:
  assumes di: "dual_indexed st" and nc: "\<not> tuple_clash protocol l st" and h: "has_new st i"
  shows "has_new (snd (process_line protocol l st)) i"
proof -
  from h obtain a c0 where a: "map_of (entries st) (Inode_key i) = Some a" "heap st a = Some c0" "use c0 = 2"
    by (auto simp: has_new_def split: option.splits)
  then have x: "(Inode_key i, a) \<in> set (entries st)" by (auto dest: map_of_SomeD)
  from process_line_forward [OF di nc x] a
  obtain c where c: "(Inode_key i, a) \<in> set (entries (snd (process_line protocol l st)))"
    "heap (snd (process_line protocol l st)) a = Some c" "use c = 2" by auto
  have "distinct (map fst (entries (snd (process_line protocol l st))))"
    using process_line_dual_indexed [OF di nc] by (simp add: dual_indexed_def indexed_with_def)
  with c(1) have "map_of (entries (snd (process_line protocol l st))) (Inode_key i) = Some a"
    by simp
  with c show ?thesis by (simp add: has_new_def)
qed

lemma process_line_new:
  assumes di: "dual_indexed st" and nc: "\<not> tuple_clash protocol l st"
    and p: "parse_line l = Some p" "line_accepted p"
    and ab: "map_of (entries st) (Inode_key (cl_inode p)) = None"
  shows "has_new (snd (process_line protocol l st)) (cl_inode p)"
proof -
  from di obtain es where es: "ht_connections st = Some es" "entries st = es"
    by (auto simp: dual_indexed_def indexed_with_def entries_def)
  from ab es have ni: "Inode_key (cl_inode p) \<notin> fst ` set es"
    by (simp add: map_of_eq_None_iff)
  note pl = process_line_insert_nc [OF p es(1) ni nc]
  show ?thesis
    using ab es by (simp add: pl has_new_def map_add_def line_conn_def)
qed

lemma process_line_absent:
  assumes di: "dual_indexed st" and nc: "\<not> tuple_clash protocol l st"
    and ab: "map_of (entries st) (Inode_key i) = None" and nl: "\<not> lines_list_inode [l] i"
  shows "map_of (entries (snd (process_line protocol l st))) (Inode_key i) = None"
proof (cases "parse_line l")
  case None
  with ab show ?thesis by (simp add: process_line_malformed)
next
  case (Some p)
  show ?thesis
  proof (cases "line_accepted p")
    case False
    with Some ab show ?thesis by (simp add: process_line_skip)
  next
    case True
    with nl Some have ne: "cl_inode p \<noteq> i" by (auto simp: lines_list_inode_def)
    from di have ix: "indexed_with use_ok st" by (simp add: dual_indexed_def)
    then obtain es where es: "ht_connections st = Some es" "entries st = es"
      by (auto simp: indexed_with_def entries_def)
    show ?thesis
    proof (cases "map_of es (Inode_key (cl_inode p))")
      case (Some a)
      then have e: "(Inode_key (cl_inode p), a) \<in> set (entries st)"
        using es by (auto dest: map_of_SomeD)
      from indexed_withD [OF ix e] obtain d where d: "heap st a = Some d" by auto
      have pl: "process_line protocol l st =
           (True, st\<lparr>key_type := KEY_INODE, heap := (heap st)(a \<mapsto> d\<lparr>active := True\<rparr>)\<rparr>)"
        using process_line_refresh [OF \<open>parse_line l = Some p\<close> True no_clash_inode [OF \<open>parse_line l = Some p\<close> True nc], of a d] Some es d
        by simp
      with ab show ?thesis by simp
    next
      case None
      then have ni: "Inode_key (cl_inode p) \<notin> fst ` set es"
        by (simp add: map_of_eq_None_iff)
      note pl = process_line_insert_nc [OF \<open>parse_line l = Some p\<close> True es(1) ni nc]
      show ?thesis using ab es ne by (simp add: pl map_add_def)
    qed
  qed
qed

lemma read_lines_new:
  assumes "dual_indexed st" "lines_clash_free protocol ls st" "read_lines protocol ls st = (True, st')"
  shows "(has_new st i \<longrightarrow> has_new st' i) \<and>
         (map_of (entries st) (Inode_key i) = None \<longrightarrow>
            (if lines_list_inode ls i then has_new st' i
             else map_of (entries st') (Inode_key i) = None))"
  using assms
proof (induction ls arbitrary: st)
  case Nil
  then show ?case by (simp add: lines_list_inode_def)
next
  case (Cons l ls)
  obtain ok s1 where pl: "process_line protocol l st = (ok, s1)" by (cases "process_line protocol l st")
  with Cons.prems(3) have ok: "ok" and rl: "read_lines protocol ls s1 = (True, st')"
    by (auto split: bool.splits)
  from Cons.prems(2) have nc: "\<not> tuple_clash protocol l st" by simp
  from Cons.prems(2) pl ok have cf: "lines_clash_free protocol ls s1" by simp
  have d1: "dual_indexed s1"
    using process_line_dual_indexed [OF Cons.prems(1) nc] pl by simp
  note ih = Cons.IH [OF d1 cf rl]
  have s1: "snd (process_line protocol l st) = s1" using pl by simp
  have part1: "has_new st i \<Longrightarrow> has_new st' i"
    using has_new_process_line [OF Cons.prems(1) nc, of i] s1 ih by simp
  have part2: "map_of (entries st) (Inode_key i) = None \<Longrightarrow>
      (if lines_list_inode (l # ls) i then has_new st' i
       else map_of (entries st') (Inode_key i) = None)"
  proof -
    assume ab: "map_of (entries st) (Inode_key i) = None"
    show ?thesis
    proof (cases "lines_list_inode [l] i")
      case True
      then obtain p where p: "parse_line l = Some p" "line_accepted p" "cl_inode p = i"
        by (auto simp: lines_list_inode_def split: option.splits)
      have "has_new s1 i"
        using process_line_new [OF Cons.prems(1) nc p(1,2)] ab p(3) s1 by simp
      with ih True show ?thesis by (simp add: lines_list_inode_Cons)
    next
      case False
      have "map_of (entries s1) (Inode_key i) = None"
        using process_line_absent [OF Cons.prems(1) nc ab False] s1 by simp
      moreover have "lines_list_inode (l # ls) i = lines_list_inode ls i"
        using False by (auto simp: lines_list_inode_def)
      ultimately show ?thesis using ih by simp
    qed
  qed
  from part1 part2 show ?case by blast
qed

lemma file_new:
  assumes "dual_indexed st" "file_clash_free fs path protocol st"
    and "connection_update_' fs path protocol st = (True, st')"
  shows "(has_new st i \<longrightarrow> has_new st' i) \<and>
         (map_of (entries st) (Inode_key i) = None \<longrightarrow>
            (if lines_list_inode (file_lines fs path) i then has_new st' i
             else map_of (entries st') (Inode_key i) = None))"
proof -
  from assms(3) obtain h rest where f: "fs path = Some (h # rest)"
    by (auto simp: connection_update_'_def split: option.splits list.splits)
  with assms have "lines_clash_free protocol rest st" "read_lines protocol rest st = (True, st')"
    by (simp_all add: connection_update_'_def file_clash_free_def)
  from read_lines_new [OF assms(1) this, of i] f show ?thesis by (simp add: file_lines_def)
qed

lemma scan_new:
  assumes di: "dual_indexed st" and cf: "update_clash_free fs proto st"
    and sc: "scan_files fs proto st = (True, s)"
    and ab: "map_of (entries st) (Inode_key i) = None"
    and li: "snapshot_lists_inode fs proto i"
  shows "has_new s i"
proof -
  obtain ok1 st1 where t: "(if TCP \<in> proto then connection_update_' fs PATH_TCP IPPROTO_TCP st else (True, st)) = (ok1, st1)"
    by (cases "if TCP \<in> proto then connection_update_' fs PATH_TCP IPPROTO_TCP st else (True, st)")
  with sc have ok1: "ok1" by (cases ok1) (auto simp: scan_files_def)
  have d1: "dual_indexed st1"
  proof (cases "TCP \<in> proto")
    case True
    with di cf have "dual_indexed (snd (connection_update_' fs PATH_TCP IPPROTO_TCP st))"
      by (intro file_dual_indexed) (simp_all add: update_clash_free_def)
    with True t show ?thesis by simp
  next
    case False
    with t di show ?thesis by simp
  qed
  have a1: "if TCP \<in> proto \<and> lines_list_inode (file_lines fs PATH_TCP) i then has_new st1 i
            else map_of (entries st1) (Inode_key i) = None"
  proof (cases "TCP \<in> proto")
    case True
    with cf have "file_clash_free fs PATH_TCP IPPROTO_TCP st" by (simp add: update_clash_free_def)
    from file_new [OF di this, of st1 i] t True ok1 ab show ?thesis by simp
  next
    case False
    with t ab show ?thesis by simp
  qed
  show ?thesis
  proof (cases "UDP \<in> proto")
    case False
    with sc t ok1 have "s = st1" by (simp add: scan_files_def)
    with a1 li False show ?thesis by (auto simp: snapshot_lists_inode_def split: if_splits)
  next
    case True
    with sc t ok1 have u: "connection_update_' fs PATH_UDP IPPROTO_UDP st1 = (True, s)"
      by (simp add: scan_files_def)
    from True cf t ok1 have "file_clash_free fs PATH_UDP IPPROTO_UDP st1"
      by (simp add: update_clash_free_def)
    from file_new [OF d1 this u, of i] a1 li show ?thesis
      by (auto simp: snapshot_lists_inode_def split: if_splits)
  qed
qed

subsection \<open>The two indexes, and aging over two updates\<close>

lemma parse_udp_31001: "parse_line line_udp_31001 = Some \<lparr> cl_local_addr = ''00000000'', cl_local_port = 0x14E9,
              cl_rem_addr = ''00000000'', cl_rem_port = 0, cl_state = 7, cl_inode = 31001 \<rparr>"
  by (simp add: line_udp_31001_def scan_defs)

lemma parse_udp_31002: "parse_line line_udp_31002 = Some \<lparr> cl_local_addr = ''00000000'', cl_local_port = 0x14E9,
              cl_rem_addr = ''00000000'', cl_rem_port = 0, cl_state = 7, cl_inode = 31002 \<rparr>"
  by (simp add: line_udp_31002_def scan_defs)

lemma parse_udp_555: "parse_line line_udp_555 = Some \<lparr> cl_local_addr = ''0100007F'', cl_local_port = 0x35,
              cl_rem_addr = ''00000000'', cl_rem_port = 0, cl_state = 7, cl_inode = 555 \<rparr>"
  by (simp add: line_udp_555_def scan_defs)

lemma dual_indexed_init: "dual_indexed (snd (connection_init st))"
  by (simp add: connection_init_def dual_indexed_def indexed_with_def kinds_apart_def)

lemma run_ops_dual_indexed:
  "dual_indexed st \<Longrightarrow> ops_clash_free ops st \<Longrightarrow> dual_indexed (run_ops ops st)"
proof (induction ops arbitrary: st)
  case Nil
  then show ?case by simp
next
  case (Cons op ops)
  show ?case
  proof (cases op)
    case Op_init
    with Cons show ?thesis by (simp add: dual_indexed_init)
  next
    case (Op_update fs proto)
    with Cons show ?thesis by (simp add: update_dual_indexed)
  qed
qed

text \<open>
  C1, as stated, fails. The UDP file lists two sockets with the same tuple under the inodes
  31001 and 31002. After one update both records are stored; the lookup of inode 31001
  returns the first record, whose tuple is the shared one, and the lookup of that tuple
  returns the second record. The two indexes also share one table whose comparison reads
  raw bytes: the tuple key of a UDP socket bound to 127.0.0.1 compares equal to the inode
  16777343, and the lookup of that inode returns the record of the socket, whose inode is
  555.
\<close>

theorem shared_tuple_breaks_dual_index:
  "fst (connection_get_by_inode 31001
          (snd (connection_update (udp_file [line_udp_31001, line_udp_31002]) {UDP} init_state))) = Some 0 \<and>
   map_option tuple (heap (snd (connection_update (udp_file [line_udp_31001, line_udp_31002]) {UDP} init_state)) 0) =
     Some \<lparr>l3_local_ip = 0, l3_remote_ip = 0, l4_local_port = 0x14E9, l4_remote_port = 0, l4_protocol = 17\<rparr> \<and>
   fst (connection_get_by_tuple
          \<lparr>l3_local_ip = 0, l3_remote_ip = 0, l4_local_port = 0x14E9, l4_remote_port = 0, l4_protocol = 17\<rparr>
          (snd (connection_update (udp_file [line_udp_31001, line_udp_31002]) {UDP} init_state))) = Some 1 \<and>
   ht_cb_compare KEY_INODE
     (Tuple_key \<lparr>l3_local_ip = 0x0100007F, l3_remote_ip = 0, l4_local_port = 0x35, l4_remote_port = 0,
                 l4_protocol = 17\<rparr>)
     (Inode_key 16777343) \<and>
   fst (connection_get_by_inode 16777343
          (snd (connection_update (udp_file [line_udp_555]) {UDP} init_state))) = Some 0 \<and>
   map_option inode (heap (snd (connection_update (udp_file [line_udp_555]) {UDP} init_state)) 0) = Some 555"
  by (simp add: init_state_def eval_defs udp_file_def parse_udp_31001 parse_udp_31002 parse_udp_555)

text \<open>
  C1, amended. After \<open>connection_init\<close> and any sequence of \<open>connection_init\<close> and
  \<open>connection_update\<close> operations in which no line read clashes with the table (no new
  inode comes with a tuple that is already stored, and no inode is equal to the first eight
  bytes of a tuple), every entry of the table refers to a live record, and the lookups of
  that record's inode and of its tuple both return it.
\<close>

theorem dual_index_consistency:
  assumes "ops_clash_free ops (snd (connection_init st0))"
    and "e \<in> set (entries (run_ops ops (snd (connection_init st0))))"
  shows "\<exists>c. heap (run_ops ops (snd (connection_init st0))) (snd e) = Some c \<and>
             fst (connection_get_by_inode (inode c) (run_ops ops (snd (connection_init st0)))) = Some (snd e) \<and>
             fst (connection_get_by_tuple (tuple c) (run_ops ops (snd (connection_init st0)))) = Some (snd e)"
proof -
  let ?st = "run_ops ops (snd (connection_init st0))"
  have "dual_indexed ?st"
    using dual_indexed_init assms(1) by (rule run_ops_dual_indexed)
  then have ix: "indexed_with use_ok ?st" by (simp add: dual_indexed_def)
  from indexed_withD [OF ix assms(2)] obtain c where c: "heap ?st (snd e) = Some c" by blast
  with indexed_lookups [OF ix assms(2) c] show ?thesis by blast
qed

text \<open>Two updates from program start: the first sample connection, then the second.\<close>

theorem dual_index_consistency_witness:
  "ops_clash_free [Op_update (tcp_file [line_20911]) {TCP}, Op_update (tcp_file [line_44385]) {TCP}]
     (snd (connection_init start_state)) \<and>
   entries (run_ops [Op_update (tcp_file [line_20911]) {TCP}, Op_update (tcp_file [line_44385]) {TCP}]
     (snd (connection_init start_state))) =
     [(Inode_key 44385, 1),
      (Tuple_key \<lparr>l3_local_ip = 0x0100007F, l3_remote_ip = 0x0200007F, l4_local_port = 0x277,
                  l4_remote_port = 0x1733, l4_protocol = 6\<rparr>, 1)] \<and>
   fst (connection_get_by_inode 44385
     (run_ops [Op_update (tcp_file [line_20911]) {TCP}, Op_update (tcp_file [line_44385]) {TCP}]
       (snd (connection_init start_state)))) = Some 1 \<and>
   fst (connection_get_by_tuple
     \<lparr>l3_local_ip = 0x0100007F, l3_remote_ip = 0x0200007F, l4_local_port = 0x277,
      l4_remote_port = 0x1733, l4_protocol = 6\<rparr>
     (run_ops [Op_update (tcp_file [line_20911]) {TCP}, Op_update (tcp_file [line_44385]) {TCP}]
       (snd (connection_init start_state)))) = Some 1"
  using dual_index_consistency [of
      "[Op_update (tcp_file [line_20911]) {TCP}, Op_update (tcp_file [line_44385]) {TCP}]"
      start_state "(Inode_key 44385, 1)"]
  by (simp add: eval_defs update_clash_free_def file_clash_free_def tuple_clash_def line_accepted_def
      line_tuple_def addr_value_def inode_apart_def tuple_apart_def)

text \<open>
  C4, as stated, fails in both halves. Four successful updates whose snapshots list the
  first sample connection, nothing, the same connection again, and nothing: the connection
  is listed in the third snapshot, one of the last two, and the table does not hold it
  after the fourth update. And two successful updates whose snapshots list nothing and then
  a UDP socket bound to 127.0.0.1 with inode 555: the inode 16777343 is listed in neither
  snapshot, and its lookup after the second update returns the record of the socket, whose
  tuple begins with the same eight bytes.
\<close>

theorem seen_connection_evicted:
  "fst (connection_update (tcp_file [line_20911]) {TCP} init_state) \<and>
   fst (connection_update (tcp_file []) {TCP}
     (snd (connection_update (tcp_file [line_20911]) {TCP} init_state))) \<and>
   fst (connection_update (tcp_file [line_20911]) {TCP}
     (snd (connection_update (tcp_file []) {TCP}
       (snd (connection_update (tcp_file [line_20911]) {TCP} init_state))))) \<and>
   fst (connection_update (tcp_file []) {TCP}
     (snd (connection_update (tcp_file [line_20911]) {TCP}
       (snd (connection_update (tcp_file []) {TCP}
         (snd (connection_update (tcp_file [line_20911]) {TCP} init_state))))))) \<and>
   snapshot_lists_inode (tcp_file [line_20911]) {TCP} 20911 \<and>
   fst (connection_get_by_inode 20911
     (snd (connection_update (tcp_file []) {TCP}
       (snd (connection_update (tcp_file [line_20911]) {TCP}
         (snd (connection_update (tcp_file []) {TCP}
           (snd (connection_update (tcp_file [line_20911]) {TCP} init_state))))))))) = None \<and>
   fst (connection_update (udp_file []) {UDP} init_state) \<and>
   fst (connection_update (udp_file [line_udp_555]) {UDP}
     (snd (connection_update (udp_file []) {UDP} init_state))) \<and>
   \<not> snapshot_lists_inode (udp_file []) {UDP} 16777343 \<and>
   \<not> snapshot_lists_inode (udp_file [line_udp_555]) {UDP} 16777343 \<and>
   fst (connection_get_by_inode 16777343
     (snd (connection_update (udp_file [line_udp_555]) {UDP}
       (snd (connection_update (udp_file []) {UDP} init_state))))) = Some 0"
  by (simp add: init_state_def eval_defs snapshot_lists_inode_def lines_list_inode_def file_lines_def
      line_accepted_def udp_file_def parse_udp_555)

text \<open>
  C4, amended. For two consecutive successful updates of a dual-indexed table, without
  clashes: an inode that is listed in neither snapshot and is not equal to the first eight
  bytes of a tuple in the table is not found after the second update, nor is a tuple that
  is listed in neither snapshot and whose first eight bytes are not equal to an inode in
  the table; and an inode that the second snapshot lists and that was not found before the
  second update is found after it.
\<close>

theorem aging_two_updates:
  assumes d0: "dual_indexed st0"
    and c1: "update_clash_free fs1 proto1 st0" and u1: "connection_update fs1 proto1 st0 = (True, st1)"
    and c2: "update_clash_free fs2 proto2 st1" and u2: "connection_update fs2 proto2 st1 = (True, st2)"
  shows "(\<not> snapshot_lists_inode fs1 proto1 i \<and> \<not> snapshot_lists_inode fs2 proto2 i \<and>
          inode_apart i (entries st2) \<longrightarrow>
            fst (connection_get_by_inode i st2) = None) \<and>
         (\<not> snapshot_lists_tuple fs1 proto1 t \<and> \<not> snapshot_lists_tuple fs2 proto2 t \<and>
          tuple_apart t (entries st2) \<longrightarrow>
            fst (connection_get_by_tuple t st2) = None) \<and>
         (snapshot_lists_inode fs2 proto2 i \<and> fst (connection_get_by_inode i st1) = None \<longrightarrow>
            fst (connection_get_by_inode i st2) \<noteq> None)"
proof -
  obtain s1 where s1: "scan_files fs1 proto1 st0 = (True, s1)" "st1 = hashtable_foreach remove_dead_conn s1"
    using u1 by (auto simp: connection_update_scan split: prod.splits bool.splits)
  obtain s2 where s2: "scan_files fs2 proto2 st1 = (True, s2)" "st2 = hashtable_foreach remove_dead_conn s2"
    using u2 by (auto simp: connection_update_scan split: prod.splits bool.splits)
  have ds1: "dual_indexed s1" using scan_dual_indexed [OF d0 c1] s1 by simp
  have ix1: "indexed_with (\<lambda>a c. use c = 1 \<and> \<not> active c) st1"
    unfolding s1(2) using ds1 by (rule aging_pass(1))
  then have d1: "dual_indexed st1"
    unfolding dual_indexed_def by (rule indexed_with_mono) (simp add: use_ok_def)
  have ds2: "dual_indexed s2" using scan_dual_indexed [OF d1 c2] s2 by simp
  have ix2: "indexed_with (\<lambda>a c. use c = 1 \<and> \<not> active c) st2"
    unfolding s2(2) using ds2 by (rule aging_pass(1))
  have listed: "\<And>x c. x \<in> set (entries st2) \<Longrightarrow> heap st2 (snd x) = Some c \<Longrightarrow>
      snapshot_lists_inode fs2 proto2 (inode c) \<and> snapshot_lists_tuple fs2 proto2 (tuple c)"
  proof -
    fix x c assume x: "x \<in> set (entries st2)" and c: "heap st2 (snd x) = Some c"
    from aging_pass(3) [OF ds2, of x] x s2(2) obtain c0 where c0: "heap s2 (snd x) = Some c0"
      "use c0 = 2" "heap st2 (snd x) = Some (c0\<lparr>active := False, use := 1\<rparr>)" by auto
    from aging_pass(2) [OF ds2] x s2(2) have xs: "x \<in> set (entries s2)" by auto
    from scan_provenance [OF d1 c2, of x c0] xs c0(1) s2(1)
    have "kept_from st1 x c0 \<or>
         (use c0 = 2 \<and> snapshot_lists_inode fs2 proto2 (inode c0) \<and> snapshot_lists_tuple fs2 proto2 (tuple c0))"
      by simp
    moreover have "\<not> kept_from st1 x c0"
    proof
      assume k: "kept_from st1 x c0"
      then have x1: "x \<in> set (entries st1)" by (simp add: kept_from_def)
      from indexed_withD [OF ix1 x1] obtain d where "heap st1 (snd x) = Some d" "use d = 1" by auto
      with k c0(2) show False by (simp add: kept_from_def)
    qed
    ultimately show "snapshot_lists_inode fs2 proto2 (inode c) \<and> snapshot_lists_tuple fs2 proto2 (tuple c)"
      using c c0(3) by auto
  qed
  have A: "\<not> snapshot_lists_inode fs2 proto2 i \<Longrightarrow> inode_apart i (entries st2) \<Longrightarrow>
             fst (connection_get_by_inode i st2) = None"
  proof (rule ccontr)
    assume nl: "\<not> snapshot_lists_inode fs2 proto2 i" and ia: "inode_apart i (entries st2)"
      and "fst (connection_get_by_inode i st2) \<noteq> None"
    then obtain a where "map_of (entries st2) (Inode_key i) = Some a" by (auto simp: get_by_inode_eq)
    then have x: "(Inode_key i, a) \<in> set (entries st2)" by (rule map_of_SomeD)
    from indexed_withD [OF ix2 x] obtain c where c: "heap st2 a = Some c" "inode c = i" by auto
    with listed [OF x] nl show False by simp
  qed
  have B: "\<not> snapshot_lists_tuple fs2 proto2 t \<Longrightarrow> tuple_apart t (entries st2) \<Longrightarrow>
             fst (connection_get_by_tuple t st2) = None"
  proof (rule ccontr)
    assume nl: "\<not> snapshot_lists_tuple fs2 proto2 t" and ta: "tuple_apart t (entries st2)"
      and "fst (connection_get_by_tuple t st2) \<noteq> None"
    then obtain a where "map_of (entries st2) (Tuple_key t) = Some a" by (auto simp: get_by_tuple_eq)
    then have x: "(Tuple_key t, a) \<in> set (entries st2)" by (rule map_of_SomeD)
    from indexed_withD [OF ix2 x] obtain c where c: "heap st2 a = Some c" "tuple c = t" by auto
    with listed [OF x] nl show False by simp
  qed
  have C: "snapshot_lists_inode fs2 proto2 i \<Longrightarrow> fst (connection_get_by_inode i st1) = None \<Longrightarrow>
     fst (connection_get_by_inode i st2) \<noteq> None"
  proof -
    assume li: "snapshot_lists_inode fs2 proto2 i" and ab: "fst (connection_get_by_inode i st1) = None"
    then have "map_of (entries st1) (Inode_key i) = None"
      by (simp add: get_by_inode_None map_of_eq_None_iff)
    from scan_new [OF d1 c2 s2(1) this li] obtain a c where a: "map_of (entries s2) (Inode_key i) = Some a"
      "heap s2 a = Some c" "use c = 2"
      by (auto simp: has_new_def split: option.splits)
    then have x: "(Inode_key i, a) \<in> set (entries s2)" by (auto dest: map_of_SomeD)
    from aging_pass(4) [OF ds2 x] a s2(2) have "(Inode_key i, a) \<in> set (entries st2)" by simp
    then have "Inode_key i \<in> fst ` set (entries st2)" by force
    moreover have "ht_cb_compare KEY_INODE (Inode_key i) (Inode_key i)" by simp
    ultimately have "\<exists>k \<in> fst ` set (entries st2). ht_cb_compare KEY_INODE k (Inode_key i)" by blast
    then show ?thesis by (simp only: get_by_inode_found)
  qed
  from A B C show ?thesis by blast
qed

text \<open>After an update listing the first sample connection: an empty snapshot, then one
  listing the second sample connection.\<close>

theorem aging_two_updates_witness:
  "dual_indexed (snd (connection_update (tcp_file [line_20911]) {TCP} init_state)) \<and>
   fst (connection_get_by_inode 20911 (snd (connection_update (tcp_file [line_20911]) {TCP} init_state))) = Some 0 \<and>
   connection_update (tcp_file []) {TCP} (snd (connection_update (tcp_file [line_20911]) {TCP} init_state)) =
     (True, snd (connection_update (tcp_file []) {TCP}
        (snd (connection_update (tcp_file [line_20911]) {TCP} init_state)))) \<and>
   \<not> snapshot_lists_inode (tcp_file []) {TCP} 20911 \<and>
   \<not> snapshot_lists_inode (tcp_file [line_44385]) {TCP} 20911 \<and>
   inode_apart 20911 (entries
     (snd (connection_update (tcp_file [line_44385]) {TCP}
        (snd (connection_update (tcp_file []) {TCP}
           (snd (connection_update (tcp_file [line_20911]) {TCP} init_state))))))) \<and>
   snapshot_lists_inode (tcp_file [line_44385]) {TCP} 44385 \<and>
   fst (connection_get_by_inode 20911
     (snd (connection_update (tcp_file [line_44385]) {TCP}
        (snd (connection_update (tcp_file []) {TCP}
           (snd (connection_update (tcp_file [line_20911]) {TCP} init_state))))))) = None \<and>
   fst (connection_get_by_inode 44385
     (snd (connection_update (tcp_file [line_44385]) {TCP}
        (snd (connection_update (tcp_file []) {TCP}
           (snd (connection_update (tcp_file [line_20911]) {TCP} init_state))))))) = Some 1"
  using aging_two_updates [of "snd (connection_update (tcp_file [line_20911]) {TCP} init_state)"
      "tcp_file []" "{TCP}"
      "snd (connection_update (tcp_file []) {TCP} (snd (connection_update (tcp_file [line_20911]) {TCP} init_state)))"
      "tcp_file [line_44385]" "{TCP}"
      "snd (connection_update (tcp_file [line_44385]) {TCP}
        (snd (connection_update (tcp_file []) {TCP}
           (snd (connection_update (tcp_file [line_20911]) {TCP} init_state)))))"
      20911]
  by (simp add: init_state_def eval_defs update_clash_free_def file_clash_free_def tuple_clash_def
      line_accepted_def line_tuple_def addr_value_def snapshot_lists_inode_def lines_list_inode_def
      file_lines_def dual_indexed_def indexed_with_def entry_ok_def use_ok_def
      inode_apart_def tuple_apart_def kinds_apart_def)

subsection \<open>Addresses of a line\<close>

lemma scan_set9_long:
  assumes "hex_str a" "9 < length a"
  shows "scan_set9 (a @ r) = Some (take 9 a, drop 9 a @ r)"
proof -
  have t: "take 9 (a @ r) = take 9 a" using assms(2) by simp
  have "\<forall>c \<in> set (take 9 a). is_hex_digit c"
    using assms(1) by (auto simp: hex_str_def dest: in_set_takeD)
  then have tw: "takeWhile is_hex_digit (take 9 a) = take 9 a" by (simp add: takeWhile_eq_all_conv)
  have ne: "take 9 a \<noteq> []" using assms(2) by auto
  have len: "length (take 9 a) = 9" using assms(2) by simp
  have dr: "drop 9 (a @ r) = drop 9 a @ r" using assms(2) by simp
  show ?thesis by (simp only: scan_set9_def t tw Let_def ne len dr if_False)
qed

lemma match_colon_long:
  assumes "hex_str a" "9 < length a"
  shows "match_char CHR '':'' (drop 9 a @ r) = None"
proof -
  from assms(2) obtain c t where d: "drop 9 a = c # t" by (cases "drop 9 a") auto
  then have "c \<in> set a" by (metis in_set_dropD list.set_intros(1))
  then have "is_hex_digit c" using assms(1) by (simp add: hex_str_def)
  then have "c \<noteq> CHR '':''" using colon_not_digit by auto
  then show ?thesis by (simp add: d match_char_def)
qed

lemma parse_line_long_local:
  assumes "ws_str w0" "dec_str sl" "ws_str w1" "hex_str la" "9 < length la"
  shows "parse_line (w0 @ sl @ CHR '':'' # w1 @ la @ r) = None"
proof -
  define r2 where "r2 = w1 @ la @ r"
  define r1 where "r1 = CHR '':'' # r2"
  have s1: "scan_dec (w0 @ sl @ r1) = Some (to_ulong False (digits_val 10 sl), r1)"
    using assms(1,2) colon_not_digit by (intro scan_dec_field) (simp_all add: r1_def)
  have "skip_ws r2 = la @ r"
    unfolding r2_def using assms(3) hex_hd [OF assms(4)] hex_not_space by (intro skip_ws_field) auto
  then have s3: "scan_set9 (skip_ws r2) = Some (take 9 la, drop 9 la @ r)"
    using assms(4,5) by (simp add: scan_set9_long)
  have m1: "match_char CHR '':'' r1 = Some r2" by (simp add: r1_def match_char_cons)
  have m3: "match_char CHR '':'' (drop 9 la @ r) = None" using assms(4,5) by (rule match_colon_long)
  have eq: "w0 @ sl @ CHR '':'' # w1 @ la @ r = w0 @ sl @ r1" by (simp add: r1_def r2_def)
  show ?thesis unfolding parse_line_def eq by (simp add: s1 s3 m1 m3)
qed

lemma parse_line_long_remote:
  assumes "ws_str w0" "dec_str sl" "ws_str w1" "hex_str la" "length la \<le> 9" "hex_str lp"
    "sep_str w2" "hex_str ra" "9 < length ra"
  shows "parse_line (w0 @ sl @ CHR '':'' # w1 @ la @ CHR '':'' # lp @ w2 @ ra @ r) = None"
proof -
  define r5 where "r5 = w2 @ ra @ r"
  define r4 where "r4 = lp @ r5"
  define r3 where "r3 = CHR '':'' # r4"
  define r2 where "r2 = w1 @ la @ r3"
  define r1 where "r1 = CHR '':'' # r2"
  have s1: "scan_dec (w0 @ sl @ r1) = Some (to_ulong False (digits_val 10 sl), r1)"
    using assms(1,2) colon_not_digit by (intro scan_dec_field) (simp_all add: r1_def)
  have s3: "scan_set9 (skip_ws r2) = Some (la, r3)"
  proof -
    have "skip_ws r2 = la @ r3"
      unfolding r2_def using assms(3) hex_hd [OF assms(4)] hex_not_space by (intro skip_ws_field) auto
    then show ?thesis using assms(4,5) colon_not_digit by (simp add: scan_set9_field r3_def)
  qed
  have s5: "scan_hex r4 = Some (to_ulong False (digits_val 16 lp), r5)"
    using scan_hex_field [of "[]" lp r5] assms(6) sep_hd [OF assms(7)] space_not_digit
    by (simp add: r4_def r5_def ws_str_def)
  have "skip_ws r5 = ra @ r"
    unfolding r5_def using assms(7) hex_hd [OF assms(8)] hex_not_space
    by (intro skip_ws_field) (auto simp: sep_str_def)
  then have s6: "scan_set9 (skip_ws r5) = Some (take 9 ra, drop 9 ra @ r)"
    using assms(8,9) by (simp add: scan_set9_long)
  have m: "match_char CHR '':'' r1 = Some r2" "match_char CHR '':'' r3 = Some r4"
    by (simp_all add: r1_def r3_def match_char_cons)
  have m6: "match_char CHR '':'' (drop 9 ra @ r) = None" using assms(8,9) by (rule match_colon_long)
  have eq: "w0 @ sl @ CHR '':'' # w1 @ la @ CHR '':'' # lp @ w2 @ ra @ r = w0 @ sl @ r1"
    by (simp add: r1_def r2_def r3_def r4_def r5_def)
  show ?thesis unfolding parse_line_def eq by (simp add: s1 s3 s5 s6 m m6)
qed

lemma ucast_field_value:
  "hex_str f \<Longrightarrow> length f \<le> 16 \<Longrightarrow> LENGTH('a::len) \<le> 64 \<Longrightarrow>
     (ucast (to_ulong False (digits_val 16 f)) :: 'a word) = of_nat (digits_val 16 f)"
  by (simp add: hex_field_value ucast_of_nat_down)

text \<open>
  C6, amended. A well-formed line of the kernel's connection file is made of the fields
  \<open>sl: local_address:port rem_address:port st tx_queue:rx_queue tr:tm_when retrnsmt uid
  timeout inode\<close> separated by white space, the ports of at most four and the state of at
  most two hexadecimal digits, the inode below \<open>2^64\<close>. When both addresses are written as
  8 hexadecimal characters the line parser accepts the line, and the record
  \<open>create_new_conn\<close> builds from the parsed items has the addresses, ports, state and inode
  written in the line. When an address is written with more than 9 hexadecimal characters,
  as the 32 of an IPv6 address, the line is rejected and reading the file fails at it.
\<close>

theorem address_parser_ipv4:
  fixes line :: string and protocol :: int and s :: conn_state
  assumes w: "ws_str w0" "ws_str w1" "sep_str w2" "sep_str w3" "sep_str w4" "sep_str w5"
      "sep_str w6" "sep_str w7" "sep_str w8" "sep_str w9"
    and d: "dec_str sl" "dec_str uid" "dec_str tmo" "dec_str ino" "digits_val 10 ino < 2 ^ 64"
    and a: "hex_str la" "hex_str ra"
    and p: "hex_str lp" "length lp \<le> 4" "hex_str rp" "length rp \<le> 4" "hex_str st" "length st \<le> 2"
    and h: "hex_str txq" "hex_str rxq" "hex_str tr" "hex_str tm" "hex_str retr"
    and r: "rest = [] \<or> \<not> is_dec_digit (hd rest)"
  defines "line \<equiv> w0 @ sl @ CHR '':'' # w1 @ la @ CHR '':'' # lp @ w2 @ ra @ CHR '':'' # rp @ w3 @ st @
            w4 @ txq @ CHR '':'' # rxq @ w5 @ tr @ CHR '':'' # tm @ w6 @ retr @ w7 @ uid @ w8 @ tmo @
            w9 @ ino @ rest"
  shows "(length la = 8 \<and> length ra = 8 \<longrightarrow>
            parse_line line =
              Some \<lparr>cl_local_addr = la, cl_local_port = of_nat (digits_val 16 lp),
                    cl_rem_addr = ra, cl_rem_port = of_nat (digits_val 16 rp),
                    cl_state = of_nat (digits_val 16 st), cl_inode = of_nat (digits_val 10 ino)\<rparr> \<and>
            create_new_conn (of_nat (digits_val 10 ino)) la ra (of_nat (digits_val 16 lp))
                (of_nat (digits_val 16 rp)) (of_nat (digits_val 16 st)) protocol s =
              (Some (next_addr s),
               s\<lparr>heap := (heap s)(next_addr s \<mapsto>
                      \<lparr>tuple = \<lparr>l3_local_ip = of_nat (digits_val 16 la),
                                 l3_remote_ip = of_nat (digits_val 16 ra),
                                 l4_local_port = of_nat (digits_val 16 lp),
                                 l4_remote_port = of_nat (digits_val 16 rp),
                                 l4_protocol = protocol\<rparr>,
                       inode = of_nat (digits_val 10 ino), state = of_nat (digits_val 16 st),
                       active = True, use = 0\<rparr>),
                 next_addr := Suc (next_addr s)\<rparr>)) \<and>
         (9 < length la \<or> 9 < length ra \<longrightarrow>
            parse_line line = None \<and> process_line protocol line s = (False, s))"
proof -
  have acc: "parse_line line =
              Some \<lparr>cl_local_addr = la, cl_local_port = of_nat (digits_val 16 lp),
                    cl_rem_addr = ra, cl_rem_port = of_nat (digits_val 16 rp),
                    cl_state = of_nat (digits_val 16 st), cl_inode = of_nat (digits_val 10 ino)\<rparr>"
    if l: "length la = 8" "length ra = 8"
  proof -
    have "parse_line line =
         Some \<lparr>cl_local_addr = la, cl_local_port = ucast (to_ulong False (digits_val 16 lp)),
               cl_rem_addr = ra, cl_rem_port = ucast (to_ulong False (digits_val 16 rp)),
               cl_state = ucast (to_ulong False (digits_val 16 st)),
               cl_inode = to_ulong False (digits_val 10 ino)\<rparr>"
      unfolding line_def using w d(1-4) a(1) _ a(2) _ p(1,3,5) h r
      by (rule parse_line_fields) (simp_all add: l)
    moreover have "(ucast (to_ulong False (digits_val 16 lp)) :: 16 word) = of_nat (digits_val 16 lp)"
      using p(1,2) by (intro ucast_field_value) simp_all
    moreover have "(ucast (to_ulong False (digits_val 16 rp)) :: 16 word) = of_nat (digits_val 16 rp)"
      using p(3,4) by (intro ucast_field_value) simp_all
    moreover have "(ucast (to_ulong False (digits_val 16 st)) :: 8 word) = of_nat (digits_val 16 st)"
      using p(5,6) by (intro ucast_field_value) simp_all
    moreover have "to_ulong False (digits_val 10 ino) = of_nat (digits_val 10 ino)"
      using d(4,5) by (rule dec_field_value)
    ultimately show ?thesis by simp
  qed
  have cr: "create_new_conn (of_nat (digits_val 10 ino)) la ra (of_nat (digits_val 16 lp))
                (of_nat (digits_val 16 rp)) (of_nat (digits_val 16 st)) protocol s =
              (Some (next_addr s),
               s\<lparr>heap := (heap s)(next_addr s \<mapsto>
                      \<lparr>tuple = \<lparr>l3_local_ip = of_nat (digits_val 16 la),
                                 l3_remote_ip = of_nat (digits_val 16 ra),
                                 l4_local_port = of_nat (digits_val 16 lp),
                                 l4_remote_port = of_nat (digits_val 16 rp),
                                 l4_protocol = protocol\<rparr>,
                       inode = of_nat (digits_val 10 ino), state = of_nat (digits_val 16 st),
                       active = True, use = 0\<rparr>),
                 next_addr := Suc (next_addr s)\<rparr>)"
    if l: "length la = 8" "length ra = 8"
  proof -
    have "scan_hex la = Some (of_nat (digits_val 16 la), [])"
      using a(1) l(1) by (intro addr_field_value) simp_all
    moreover have "scan_hex ra = Some (of_nat (digits_val 16 ra), [])"
      using a(2) l(2) by (intro addr_field_value) simp_all
    ultimately show ?thesis by (simp add: create_new_conn_def ucast_of_nat_down)
  qed
  have rej: "parse_line line = None" if l: "9 < length la \<or> 9 < length ra"
  proof (cases "9 < length la")
    case True
    show ?thesis unfolding line_def using w(1) d(1) w(2) a(1) True by (rule parse_line_long_local)
  next
    case False
    then have "length la \<le> 9" "9 < length ra" using l by simp_all
    then show ?thesis unfolding line_def using w(1) d(1) w(2) a(1) p(1) w(3) a(2)
      by (intro parse_line_long_remote) simp_all
  qed
  from acc cr rej show ?thesis by (simp add: process_line_malformed)
qed

text \<open>
  C6, as stated, fails: a line of \<open>/proc/net/tcp6\<close>, with addresses of 32 hexadecimal
  characters, is not accepted by the line parser, and an update that reads it returns an
  error and leaves the state as it was.
\<close>

theorem ipv6_line_rejected:
  "parse_line line_tcp6 = None \<and>
   connection_update (tcp_file [line_tcp6]) {TCP} init_state = (False, init_state)"
  by (simp add: init_state_def eval_defs)

text \<open>The first sample line is accepted, the IPv6 sample line rejected.\<close>

theorem address_parser_ipv4_witness:
  "parse_line line_20911 =
     Some \<lparr>cl_local_addr = ''3500007F'', cl_local_port = 0x35, cl_rem_addr = ''00000000'',
           cl_rem_port = 0, cl_state = 1, cl_inode = 20911\<rparr> \<and>
   create_new_conn 20911 ''3500007F'' ''00000000'' 0x35 0 1 IPPROTO_TCP init_state =
     (Some 0,
      init_state\<lparr>heap := (heap init_state)(0 \<mapsto>
          \<lparr>tuple = \<lparr>l3_local_ip = 0x3500007F, l3_remote_ip = 0, l4_local_port = 0x35,
                     l4_remote_port = 0, l4_protocol = 6\<rparr>,
           inode = 20911, state = 1, active = True, use = 0\<rparr>),
        next_addr := 1\<rparr>) \<and>
   parse_line line_tcp6 = None \<and>
   process_line IPPROTO_TCP line_tcp6 init_state = (False, init_state)"
  using address_parser_ipv4 [where ?w0.0 = "''   ''" and sl = "''0''" and ?w1.0 = "'' ''"
      and la = "''3500007F''" and lp = "''0035''" and ?w2.0 = "'' ''" and ra = "''00000000''"
      and rp = "''0000''" and ?w3.0 = "'' ''" and st = "''01''" and ?w4.0 = "'' ''"
      and txq = "''00000000''" and rxq = "''00000000''" and ?w5.0 = "'' ''" and tr = "''00''"
      and tm = "''00000000''" and ?w6.0 = "'' ''" and retr = "''00000000''" and ?w7.0 = "''   ''"
      and uid = "''101''" and ?w8.0 = "''        ''" and tmo = "''0''" and ?w9.0 = "'' ''"
      and ino = "''20911''" and rest = "'' 1 0000000000000000 100 0 0 10 0''"
      and protocol = IPPROTO_TCP and s = init_state]
    address_parser_ipv4 [where ?w0.0 = "''   ''" and sl = "''0''" and ?w1.0 = "'' ''"
      and la = "''00000000000000000000000001000000''" and lp = "''0277''" and ?w2.0 = "'' ''"
      and ra = "''00000000000000000000000000000000''"
      and rp = "''0000''" and ?w3.0 = "'' ''" and st = "''01''" and ?w4.0 = "'' ''"
      and txq = "''00000000''" and rxq = "''00000000''" and ?w5.0 = "'' ''" and tr = "''00''"
      and tm = "''00000000''" and ?w6.0 = "'' ''" and retr = "''00000000''" and ?w7.0 = "''     ''"
      and uid = "''0''" and ?w8.0 = "''        ''" and tmo = "''0''" and ?w9.0 = "'' ''"
      and ino = "''21345''" and rest = "'' 1 0000000000000000 100 0 0 10 0''"
      and protocol = IPPROTO_TCP and s = init_state]
  by (simp add: line_20911_def line_tcp6_def ws_str_def sep_str_def dec_str_def hex_str_def
      is_hex_digit_def is_dec_digit_def isspace_c_def digits_val_def digit_val_def
      init_state_def connection_init_def start_state_def IPPROTO_TCP_def)

end
